theory Spec2Isabelle
  imports Main "HOL-Library.Word" "HOL-Library.Sublist"
begin

unbundle bit_operations_syntax

section \<open>Text and bytes\<close>

text \<open>
  The program is TypeScript running in a browser.  A JavaScript string is a sequence of
  UTF-16 code units; what the serial port delivers and accepts is a \<^verbatim>\<open>Uint8Array\<close>.
\<close>

type_synonym byte = "8 word"
type_synonym jstring = "16 word list"

definition js :: "string \<Rightarrow> jstring" where
  "js s = map of_char s"

definition bytes_of :: "string \<Rightarrow> byte list" where
  "bytes_of s = map of_char s"

subsection \<open>\<^verbatim>\<open>String.prototype.includes\<close> and the head of \<^verbatim>\<open>String.prototype.split\<close>\<close>

text \<open>\<open>str_includes s t\<close> is \<^verbatim>\<open>s.includes(t)\<close>: \<open>t\<close> occurs in \<open>s\<close> as a contiguous run.\<close>

fun str_includes :: "'a list \<Rightarrow> 'a list \<Rightarrow> bool" where
  "str_includes [] t = (t = [])"
| "str_includes (x # xs) t = (prefix t (x # xs) \<or> str_includes xs t)"

text \<open>
  \<open>split_first s t\<close> is \<^verbatim>\<open>s.split(t)[0]\<close> for a non-empty separator \<open>t\<close>: the part of
  \<open>s\<close> before the first occurrence of \<open>t\<close>, and all of \<open>s\<close> when \<open>t\<close> does not occur.
\<close>

fun split_first :: "'a list \<Rightarrow> 'a list \<Rightarrow> 'a list" where
  "split_first [] t = []"
| "split_first (x # xs) t = (if prefix t (x # xs) then [] else x # split_first xs t)"

subsection \<open>The streaming UTF-8 decoder\<close>

text \<open>
  \<^verbatim>\<open>readFromPort\<close> creates \<^verbatim>\<open>new TextDecoder()\<close> and calls
  \<^verbatim>\<open>decoder.decode(value, {stream: true})\<close> on every chunk.  \<^verbatim>\<open>TextDecoder\<close> is
  the browser's; it is modelled here after the utf-8 decoder of the Encoding Standard
  with the constructor's defaults: errors are replaced by U+FFFD, a leading byte order
  mark is dropped, and with \<^verbatim>\<open>stream: true\<close> an incomplete sequence at the end of a
  chunk is kept in the decoder and is never flushed.
\<close>

record utf8_decoder =
  code_point :: "32 word"
  bytes_seen :: nat
  bytes_needed :: nat
  lower_boundary :: byte
  upper_boundary :: byte
  bom_seen :: bool

definition new_TextDecoder :: utf8_decoder where
  "new_TextDecoder =
     \<lparr>code_point = 0, bytes_seen = 0, bytes_needed = 0,
      lower_boundary = 0x80, upper_boundary = 0xBF, bom_seen = False\<rparr>"

definition reset_decoder :: "utf8_decoder \<Rightarrow> utf8_decoder" where
  "reset_decoder d =
     d\<lparr>code_point := 0, bytes_seen := 0, bytes_needed := 0,
       lower_boundary := 0x80, upper_boundary := 0xBF\<rparr>"

text \<open>The handler's branch for a byte that starts a sequence (\<open>bytes_needed = 0\<close>).\<close>

definition lead_byte :: "utf8_decoder \<Rightarrow> byte \<Rightarrow> 32 word list \<times> utf8_decoder" where
  "lead_byte d b =
     (if b \<le> 0x7F then ([ucast b], d)
      else if 0xC2 \<le> b \<and> b \<le> 0xDF then
        ([], d\<lparr>bytes_needed := 1, code_point := ucast (b AND 0x1F)\<rparr>)
      else if 0xE0 \<le> b \<and> b \<le> 0xEF then
        ([], d\<lparr>lower_boundary := (if b = 0xE0 then 0xA0 else lower_boundary d),
               upper_boundary := (if b = 0xED then 0x9F else upper_boundary d),
               bytes_needed := 2, code_point := ucast (b AND 0xF)\<rparr>)
      else if 0xF0 \<le> b \<and> b \<le> 0xF4 then
        ([], d\<lparr>lower_boundary := (if b = 0xF0 then 0x90 else lower_boundary d),
               upper_boundary := (if b = 0xF4 then 0x8F else upper_boundary d),
               bytes_needed := 3, code_point := ucast (b AND 0x7)\<rparr>)
      else ([0xFFFD], d))"

text \<open>
  The handler for one byte.  A byte outside the expected range ends the sequence with
  U+FFFD and is then read again as the start of a new sequence.
\<close>

definition utf8_handler :: "utf8_decoder \<Rightarrow> byte \<Rightarrow> 32 word list \<times> utf8_decoder" where
  "utf8_handler d b =
     (if bytes_needed d = 0 then lead_byte d b
      else if \<not> (lower_boundary d \<le> b \<and> b \<le> upper_boundary d) then
        (let (out, d') = lead_byte (reset_decoder d) b in (0xFFFD # out, d'))
      else
        (let d' = d\<lparr>lower_boundary := 0x80, upper_boundary := 0xBF,
                     code_point := push_bit 6 (code_point d) OR ucast (b AND 0x3F),
                     bytes_seen := bytes_seen d + 1\<rparr>
         in if bytes_seen d' \<noteq> bytes_needed d' then ([], d')
            else ([code_point d'], reset_decoder d')))"

text \<open>A code point as UTF-16 code units: one unit, or a surrogate pair above U+FFFF.\<close>

definition utf16_units :: "32 word \<Rightarrow> jstring" where
  "utf16_units cp =
     (if cp < 0x10000 then [ucast cp]
      else [0xD800 + ucast (drop_bit 10 (cp - 0x10000)),
            0xDC00 + ucast ((cp - 0x10000) AND 0x3FF)])"

text \<open>The first code point of the stream is dropped when it is the byte order mark.\<close>

fun strip_bom :: "utf8_decoder \<Rightarrow> 32 word list \<Rightarrow> 32 word list \<times> utf8_decoder" where
  "strip_bom d [] = ([], d)"
| "strip_bom d (cp # cps) =
     (if bom_seen d then (cp # cps, d)
      else if cp = 0xFEFF then (cps, d\<lparr>bom_seen := True\<rparr>)
      else (cp # cps, d\<lparr>bom_seen := True\<rparr>))"

definition decode_byte :: "utf8_decoder \<Rightarrow> byte \<Rightarrow> jstring \<times> utf8_decoder" where
  "decode_byte d b =
     (let (cps, d1) = utf8_handler d b; (cps', d2) = strip_bom d1 cps
      in (concat (map utf16_units cps'), d2))"

text \<open>\<^verbatim>\<open>decoder.decode(value, {stream: true})\<close>: the text of one chunk and the decoder after it.\<close>

fun decode :: "utf8_decoder \<Rightarrow> byte list \<Rightarrow> jstring \<times> utf8_decoder" where
  "decode d [] = ([], d)"
| "decode d (b # bs) =
     (let (t, d1) = decode_byte d b; (ts, d2) = decode d1 bs in (t @ ts, d2))"

section \<open>The scanning reader\<close>

text \<open>
  What one \<^verbatim>\<open>picoserial.picoreader.read()\<close> settles to: a chunk of bytes,
  \<^verbatim>\<open>{done: true}\<close>, or a rejection.  The device's side of the port is the list of
  these results in the order the reads receive them; a read issued when the list is
  used up stays pending for ever.
\<close>

datatype read_result = Chunk "byte list" | Done | Failed

text \<open>
  The parameter \<^verbatim>\<open>targetChar: string | false\<close> is a \<open>jstring option\<close>, \<open>None\<close> for
  \<^verbatim>\<open>false\<close>.  \<open>hit t chunk\<close> is the test \<^verbatim>\<open>targetChar && chunk.includes(targetChar)\<close>
  that both the generator and its consumer make; the empty string is falsy.
\<close>

definition hit :: "jstring option \<Rightarrow> jstring \<Rightarrow> bool" where
  "hit targetChar chunk =
     (case targetChar of None \<Rightarrow> False | Some m \<Rightarrow> m \<noteq> [] \<and> str_includes chunk m)"

datatype gen_end = Returned | Threw | Awaiting

text \<open>
  The generator \<^verbatim>\<open>readFromPort\<close>, run against the reads it will receive: the chunks it
  yields, how it ends (it returns, the read throws, or it awaits a read that never
  settles) and the reads it has not used.
\<close>

fun readFromPort ::
  "jstring option \<Rightarrow> utf8_decoder \<Rightarrow> read_result list \<Rightarrow> jstring list \<times> gen_end \<times> read_result list"
where
  "readFromPort targetChar decoder [] = ([], Awaiting, [])"
| "readFromPort targetChar decoder (Done # rs) = ([], Returned, rs)"
| "readFromPort targetChar decoder (Failed # rs) = ([], Threw, rs)"
| "readFromPort targetChar decoder (Chunk v # rs) =
     (let (chunk, decoder') = decode decoder v
      in if hit targetChar chunk then ([chunk], Returned, rs)
         else (let (chunks, e, rs') = readFromPort targetChar decoder' rs
               in (chunk # chunks, e, rs')))"

text \<open>
  The body of the \<^verbatim>\<open>for await\<close> loop of \<^verbatim>\<open>clearpicoport\<close> over the yielded chunks:
  the accumulated \<^verbatim>\<open>result\<close>.  The loop breaks at the chunk at which the generator
  returns, so the generator has yielded nothing beyond it.
\<close>

fun collect :: "jstring option \<Rightarrow> jstring \<Rightarrow> jstring list \<Rightarrow> jstring" where
  "collect targetChar result [] = result"
| "collect targetChar result (chunk # chunks) =
     (if hit targetChar chunk then
        (case targetChar of None \<Rightarrow> result | Some m \<Rightarrow> result @ split_first chunk m)
      else collect targetChar (result @ chunk) chunks)"

section \<open>The session\<close>

datatype error = WriterNotAvailable | TypeError | TransportError

text \<open>The fate of the promise an \<^verbatim>\<open>async\<close> function returns.\<close>

datatype 'a outcome = Fulfilled 'a | Rejected error | Pending

text \<open>
  Which loop holds \<^verbatim>\<open>picoserial.picoreader\<close>: the terminal loop of \<^verbatim>\<open>readpicoport\<close>
  or a scan of \<^verbatim>\<open>clearpicoport\<close>.
\<close>

datatype reader = Passthrough | Scanning

text \<open>
  \<^verbatim>\<open>Pico.writer\<close>: \<^verbatim>\<open>null\<close>, a writer that holds the lock of the writable stream, or
  a writer whose lock has been released (the field is not cleared by \<^verbatim>\<open>releaseLock\<close>).
\<close>

datatype writer_ref = NoWriter | Held | Released

text \<open>
  The effects on the port, the terminal and the editor, in the order they happen.
  \<open>Write str\<close> is a call of \<^verbatim>\<open>writer.write\<close> that the port accepts, \<open>TermError\<close> a
  line \<^verbatim>\<open><ERROR: ...>\<close> on the terminal, \<open>TermLine\<close> any other line written there.
\<close>

datatype event =
    ReaderCancel
  | GetReader reader
  | ReaderRelease
  | GetWriter
  | WriterRelease
  | Write jstring
  | TermError
  | SetEditor jstring
  | TermLine jstring
  | PortOpen
  | PortClose

text \<open>
  The globals \<^verbatim>\<open>picoserial\<close> and \<^verbatim>\<open>pico\<close> together with the port's two directions:
  \<open>incoming\<close> is what the reads of a reader acquired from now on will settle to,
  \<open>wfaults\<close> says of each coming \<^verbatim>\<open>writer.write\<close> whether it rejects (none does once
  the list is used up).

  Two fields belong to a call \<^verbatim>\<open>pico.sendCommand(...)\<close> made without \<^verbatim>\<open>await\<close>.  Such a
  call is suspended at its \<^verbatim>\<open>await this.write(command)\<close> when its caller goes on;
  \<open>sending\<close> says that one is suspended there.  It goes on, with \<^verbatim>\<open>this.releaseLock()\<close>,
  when the write has settled, and the program does not decide when that is:
  \<open>write_settles\<close> says whether it is while the caller awaits the cancel of its reader
  (the one \<^verbatim>\<open>await\<close> that can follow such a call), or only after the caller has
  returned.
\<close>

record session =
  picoport :: bool
  readable :: bool
  writable :: bool
  picoreader :: "reader option"
  writer :: writer_ref
  sending :: bool
  incoming :: "read_result list"
  wfaults :: "bool list"
  write_settles :: bool
  trace :: "event list"

type_synonym 'a action = "session \<Rightarrow> 'a outcome \<times> session"

definition emit :: "event list \<Rightarrow> session \<Rightarrow> session" where
  "emit evs s = s\<lparr>trace := trace s @ evs\<rparr>"

definition bind :: "'a action \<Rightarrow> ('a \<Rightarrow> 'b action) \<Rightarrow> 'b action" where
  "bind m f s =
     (case m s of
        (Fulfilled a, s') \<Rightarrow> f a s'
      | (Rejected e, s') \<Rightarrow> (Rejected e, s')
      | (Pending, s') \<Rightarrow> (Pending, s'))"

text \<open>Awaited statements one after the other; the first that does not fulfil ends the run.\<close>

fun run_all :: "unit action list \<Rightarrow> unit action" where
  "run_all [] s = (Fulfilled (), s)"
| "run_all (a # as) s =
     (case a s of
        (Fulfilled _, s') \<Rightarrow> run_all as s'
      | (Rejected e, s') \<Rightarrow> (Rejected e, s')
      | (Pending, s') \<Rightarrow> (Pending, s'))"

text \<open>A synchronous statement that cannot throw.\<close>

definition stmt :: "(session \<Rightarrow> session) \<Rightarrow> unit action" where
  "stmt f s = (Fulfilled (), f s)"

text \<open>
  What happens in the background while a statement is awaited: \<open>awaiting b m\<close> is the
  awaited statement \<open>m\<close> during which the step \<open>b\<close> of a suspended call takes place,
  whether \<open>m\<close> fulfils or not.
\<close>

definition awaiting :: "(session \<Rightarrow> session) \<Rightarrow> 'a action \<Rightarrow> 'a action" where
  "awaiting b m s = (case m s of (r, s') \<Rightarrow> (r, b s'))"

subsection \<open>The writer\<close>

definition prepareWritablePort :: "bool action" where
  "prepareWritablePort s =
     (if picoport s \<and> writable s then
        (if writer s = Held then (Rejected TypeError, s)
         else (Fulfilled True, emit [GetWriter] (s\<lparr>writer := Held\<rparr>)))
      else (Fulfilled False, s\<lparr>writer := NoWriter\<rparr>))"

definition releaseLock :: "session \<Rightarrow> session" where
  "releaseLock s =
     (case writer s of
        Held \<Rightarrow> emit [WriterRelease] (s\<lparr>writer := Released\<rparr>)
      | _ \<Rightarrow> s)"

definition pico_write :: "jstring \<Rightarrow> unit action" where
  "pico_write str s =
     (case writer s of
        NoWriter \<Rightarrow> (Rejected WriterNotAvailable, s)
      | Released \<Rightarrow> (Rejected TypeError, s)
      | Held \<Rightarrow>
          (case wfaults s of
             [] \<Rightarrow> (Fulfilled (), emit [Write str] s)
           | fault # faults \<Rightarrow>
               (if fault then (Rejected TransportError, s\<lparr>wfaults := faults\<rparr>)
                else (Fulfilled (), emit [Write str] (s\<lparr>wfaults := faults\<rparr>)))))"

definition sendCommand :: "jstring \<Rightarrow> unit action" where
  "sendCommand command =
     bind prepareWritablePort (\<lambda>ok.
       if ok then run_all [pico_write command, stmt releaseLock] else stmt id)"

text \<open>
  \<^verbatim>\<open>pico.sendCommand(command)\<close> called without \<^verbatim>\<open>await\<close>, in two parts.  Up to its
  first \<^verbatim>\<open>await\<close> the call runs at once: the writer is acquired and the write is
  issued.  When the port accepts the write the call is left suspended; when the write is
  rejected, or \<^verbatim>\<open>getWriter()\<close> throws, the promise of the call is rejected and nobody
  looks at it, and a writer that was acquired keeps the lock.  \<open>sendCommand_finish\<close> is
  the rest of the suspended call, run when the write has settled.
\<close>

definition sendCommand_start :: "jstring \<Rightarrow> session \<Rightarrow> session" where
  "sendCommand_start command s =
     (case prepareWritablePort s of
        (ok, s1) \<Rightarrow>
          (if ok = Fulfilled True then
             (case pico_write command s1 of
                (w, s2) \<Rightarrow> (if w = Fulfilled () then s2\<lparr>sending := True\<rparr> else s2))
           else s1))"

definition sendCommand_finish :: "session \<Rightarrow> session" where
  "sendCommand_finish s = (if sending s then (releaseLock s)\<lparr>sending := False\<rparr> else s)"

definition runCode :: "jstring \<Rightarrow> unit action" where
  "runCode content =
     bind prepareWritablePort (\<lambda>ok.
       if ok then
         run_all
           [pico_write [0x01], pico_write content, pico_write [0x04], pico_write [0x02],
            stmt releaseLock]
       else stmt id)"

subsection \<open>The reader\<close>

text \<open>
  \<^verbatim>\<open>if (picoserial.picoreader) { await picoserial.picoreader.cancel(); }\<close>.  The cancel
  settles the pending read of the loop that holds the reader with \<^verbatim>\<open>done\<close>; the loop
  ends and its \<^verbatim>\<open>finally\<close> block releases the lock and clears
  \<^verbatim>\<open>picoserial.picoreader\<close>.  The model takes this to have happened when the
  \<^verbatim>\<open>await\<close> is over.  While the cancel is awaited, a write issued before it without
  \<^verbatim>\<open>await\<close> may settle, and the suspended \<^verbatim>\<open>sendCommand\<close> then releases its writer.
  With no reader there is no \<^verbatim>\<open>await\<close>, and nothing else can run.
\<close>

definition cancel_picoreader :: "session \<Rightarrow> session" where
  "cancel_picoreader s =
     (case picoreader s of
        None \<Rightarrow> s
      | Some r \<Rightarrow>
          (let s' = emit [ReaderCancel, ReaderRelease] (s\<lparr>picoreader := None\<rparr>)
           in if write_settles s' then sendCommand_finish s' else s'))"

text \<open>
  A reading loop called without \<^verbatim>\<open>await\<close>, up to the point where its caller goes on:
  the reader is acquired and the loop awaits its first read.  \<^verbatim>\<open>getReader()\<close> on a
  locked stream throws inside the \<^verbatim>\<open>async\<close> function, whose promise nobody awaits.
  \<open>start_reader Passthrough\<close> is the call \<^verbatim>\<open>readpicoport()\<close>, the last statement of
  \<^verbatim>\<open>writeFile\<close> and of \<^verbatim>\<open>loadTempPy\<close>, which return with the loop at this point.
  \<open>start_reader Scanning\<close> is the first part of \<^verbatim>\<open>this.clearpicoport(false)\<close> in
  \<^verbatim>\<open>writeFile\<close>; the loop it starts goes on in \<open>drain_reads\<close> below.
\<close>

definition start_reader :: "reader \<Rightarrow> session \<Rightarrow> session" where
  "start_reader r s =
     (if picoport s \<and> readable s then
        (if picoreader s \<noteq> None then s
         else emit [GetReader r] (s\<lparr>picoreader := Some r\<rparr>))
      else s)"

text \<open>
  The loop of \<^verbatim>\<open>clearpicoport\<close> once it holds the reader: it reads until the marker
  has come, the stream is done or a read fails, and releases the reader in its
  \<^verbatim>\<open>finally\<close> block.  A failed read is caught, reported on the terminal, and the text
  read so far is returned.  When the reads are used up the loop awaits the next one, and
  keeps the reader.
\<close>

definition read_loop :: "jstring option \<Rightarrow> jstring action" where
  "read_loop targetChar s =
     (let (chunks, e, rs) = readFromPort targetChar new_TextDecoder (incoming s);
          result = collect targetChar [] chunks;
          s' = s\<lparr>incoming := rs\<rparr>
      in case e of
           Returned \<Rightarrow> (Fulfilled result, emit [ReaderRelease] (s'\<lparr>picoreader := None\<rparr>))
         | Threw \<Rightarrow> (Fulfilled result, emit [TermError, ReaderRelease] (s'\<lparr>picoreader := None\<rparr>))
         | Awaiting \<Rightarrow> (Pending, s'))"

text \<open>\<^verbatim>\<open>await clearpicoport(targetChar)\<close>.\<close>

definition clearpicoport :: "jstring option \<Rightarrow> jstring action" where
  "clearpicoport targetChar s =
     (if picoport s \<and> readable s then
        (if picoreader s \<noteq> None then (Rejected TypeError, s)
         else read_loop targetChar (emit [GetReader Scanning] (s\<lparr>picoreader := Some Scanning\<rparr>)))
      else (Fulfilled [], s))"

text \<open>
  The loop that \<^verbatim>\<open>this.clearpicoport(false)\<close> has started without \<^verbatim>\<open>await\<close> in
  \<^verbatim>\<open>writeFile\<close>, while \<^verbatim>\<open>writeFile\<close> awaits its first write: the loop takes the
  reads that settle and drops their text.  It ends by itself when the stream is done or
  a read fails, and then nothing is left for the cancel that follows the writes; it goes
  on reading, with the reader, when the reads are used up.
\<close>

definition drain_reads :: "session \<Rightarrow> session" where
  "drain_reads s = (if picoreader s = Some Scanning then snd (read_loop None s) else s)"

subsection \<open>Pushing a file\<close>

text \<open>\<^verbatim>\<open>content.split('\n')\<close>.\<close>

fun split_lines :: "jstring \<Rightarrow> jstring list" where
  "split_lines [] = [[]]"
| "split_lines (c # cs) =
     (if c = 0x0A then [] # split_lines cs
      else (case split_lines cs of [] \<Rightarrow> [[c]] | l # ls \<Rightarrow> (c # l) # ls))"

text \<open>\<^verbatim>\<open>line.replace(/[\r\n]+$/, '')\<close>: the line without the CRs and LFs it ends with.\<close>

definition strip_eol :: "jstring \<Rightarrow> jstring" where
  "strip_eol line = rev (dropWhile (\<lambda>c. c = 0x0D \<or> c = 0x0A) (rev line))"

text \<open>
  \<^verbatim>\<open>JSON.stringify\<close> of a string: the quoted string, with the two-character escapes,
  \<^verbatim>\<open>\u00xx\<close> for the other control characters and \<^verbatim>\<open>\udxxx\<close> for a surrogate
  that is not part of a pair.
\<close>

definition hex_digit :: "16 word \<Rightarrow> 16 word" where
  "hex_digit n = (if n < 10 then 0x30 + n else 0x61 + (n - 10))"

definition unicode_escape :: "16 word \<Rightarrow> jstring" where
  "unicode_escape c =
     [0x5C, 0x75, hex_digit (drop_bit 12 c), hex_digit (drop_bit 8 c AND 0xF),
      hex_digit (drop_bit 4 c AND 0xF), hex_digit (c AND 0xF)]"

definition quote_unit :: "16 word \<Rightarrow> jstring" where
  "quote_unit c =
     (if c = 0x08 then [0x5C, 0x62]
      else if c = 0x09 then [0x5C, 0x74]
      else if c = 0x0A then [0x5C, 0x6E]
      else if c = 0x0C then [0x5C, 0x66]
      else if c = 0x0D then [0x5C, 0x72]
      else if c = 0x22 then [0x5C, 0x22]
      else if c = 0x5C then [0x5C, 0x5C]
      else if c < 0x20 \<or> (0xD800 \<le> c \<and> c \<le> 0xDFFF) then unicode_escape c
      else [c])"

fun quote_units :: "jstring \<Rightarrow> jstring" where
  "quote_units [] = []"
| "quote_units [c] = quote_unit c"
| "quote_units (c # d # cs) =
     (if 0xD800 \<le> c \<and> c \<le> 0xDBFF \<and> 0xDC00 \<le> d \<and> d \<le> 0xDFFF
      then c # d # quote_units cs
      else quote_unit c @ quote_units (d # cs))"

definition JSON_stringify :: "jstring \<Rightarrow> jstring" where
  "JSON_stringify str = [0x22] @ quote_units str @ [0x22]"

text \<open>The writes of the loop over \<^verbatim>\<open>lines\<close>; the last line is the one with \<open>i = lines.length - 1\<close>.\<close>

fun line_writes :: "jstring list \<Rightarrow> unit action list" where
  "line_writes [] = []"
| "line_writes [line] =
     (let sanitizedLine = strip_eol line
      in if sanitizedLine \<noteq> []
         then [pico_write (js ''  f.write('' @ JSON_stringify sanitizedLine @ js '')'')]
         else [])"
| "line_writes (line # lines) =
     pico_write (js ''  f.write('' @ JSON_stringify (strip_eol line @ [0x0A]) @ js '')'' @ [0x0D])
       # line_writes lines"

text \<open>The statement \<^verbatim>\<open>if (this.prepareWritablePort()) { ... }\<close> of \<^verbatim>\<open>writeFile\<close>.\<close>

definition writeFile_body :: "jstring \<Rightarrow> jstring \<Rightarrow> unit action" where
  \<open>writeFile_body filename content =
     bind prepareWritablePort (\<lambda>ok.
       if ok then
         run_all
           ([awaiting drain_reads (pico_write [0x01]),
             pico_write (js ''with open("'' @ filename @ js ''", "w") as f:'' @ [0x0D])]
            @ line_writes (split_lines content)
            @ [pico_write [0x04], stmt releaseLock, stmt (sendCommand_start [0x02])])
       else stmt id)\<close>

definition writeFile :: "jstring \<Rightarrow> jstring \<Rightarrow> unit action" where
  "writeFile filename content =
     run_all
       [stmt cancel_picoreader,
        stmt (start_reader Scanning),
        writeFile_body filename content,
        stmt cancel_picoreader,
        stmt (start_reader Passthrough)]"

subsection \<open>Loading a file\<close>

text \<open>The statement \<^verbatim>\<open>if (pico.prepareWritablePort()) { ... }\<close> of \<^verbatim>\<open>loadTempPy\<close>.\<close>

definition loadTempPy_body :: "unit action" where
  \<open>loadTempPy_body =
     bind prepareWritablePort (\<lambda>ok.
       if ok then
         bind (run_all
                 [pico_write [0x01],
                  pico_write (js ''import os'' @ [0x0D]),
                  pico_write (js ''with open("temp.py") as f:'' @ [0x0D]),
                  pico_write (js ''  print(f.read())'' @ [0x0D]),
                  pico_write [0x04],
                  stmt releaseLock]) (\<lambda>_.
         bind (clearpicoport (Some (js ''OK''))) (\<lambda>_.
         bind (clearpicoport (Some [0x04])) (\<lambda>result.
           run_all [stmt (sendCommand_start [0x02]), stmt (emit [SetEditor result])])))
       else stmt id)\<close>

definition loadTempPy :: "unit action" where
  "loadTempPy =
     run_all [stmt cancel_picoreader, loadTempPy_body, stmt (start_reader Passthrough)]"

subsection \<open>Connecting and disconnecting\<close>

text \<open>\<^verbatim>\<open>Pico.markDisconnected\<close>.\<close>

definition markDisconnected :: "session \<Rightarrow> session" where
  "markDisconnected s = (emit [TermLine (js ''<DISCONNECTED>'')] s)\<lparr>picoport := False\<rparr>"

text \<open>
  \<^verbatim>\<open>try { await localPort.close(); } catch (e) { ... }\<close>.  Whether the port can be closed
  is for the platform to say, in \<open>closes\<close>; it refuses while a reader or a writer holds
  a lock on one of the port's streams.  A closed port has no streams; a close that
  throws is reported on the terminal and leaves the port as it is.
\<close>

definition close_port :: "bool \<Rightarrow> session \<Rightarrow> session" where
  "close_port closes s =
     (if closes \<and> picoreader s = None \<and> writer s \<noteq> Held
      then emit [PortClose] (s\<lparr>readable := False, writable := False\<rparr>)
      else emit [TermError] s)"

text \<open>\<^verbatim>\<open>PicoSerial.disconnectFromPort\<close>.\<close>

definition disconnectFromPort :: "bool \<Rightarrow> session \<Rightarrow> session" where
  "disconnectFromPort closes s =
     (let localPort = picoport s;
          s1 = cancel_picoreader (s\<lparr>picoport := False\<rparr>);
          s2 = (if localPort then close_port closes s1 else s1)
      in markDisconnected s2)"

text \<open>
  What \<^verbatim>\<open>getSelectedPort\<close> finds in the port selector: the entry \<^verbatim>\<open>prompt\<close>, with
  the user then choosing a port or dismissing the dialog, or a port of the list.
\<close>

datatype selection = Prompt bool | Listed

text \<open>
  \<^verbatim>\<open>Pico.openpicoport\<close> after its \<^verbatim>\<open>await picoserial.getSelectedPort()\<close>.  Whether
  \<^verbatim>\<open>open\<close> fulfils is for the platform to say, in \<open>opens\<close>; it refuses a port that is
  open already.
\<close>

definition openpicoport_opening :: "bool \<Rightarrow> session \<Rightarrow> session" where
  "openpicoport_opening opens s =
     (if \<not> picoport s then s
      else if opens \<and> \<not> readable s \<and> \<not> writable s
      then emit [PortOpen, TermLine (js ''<CONNECTED>'')] (s\<lparr>readable := True, writable := True\<rparr>)
      else markDisconnected (emit [TermError] s))"

text \<open>
  The click on the connect button.  With a port set it disconnects.  With none it calls
  \<^verbatim>\<open>pico.openpicoport()\<close> and \<^verbatim>\<open>pico.readpicoport()\<close>, neither awaited:
  \<^verbatim>\<open>openpicoport\<close> runs up to its first \<^verbatim>\<open>await\<close>, where a port of the list has
  been set already and a port asked for in the dialog has not; \<^verbatim>\<open>readpicoport\<close>
  then finds a port that is not open yet, unless an earlier close has failed; the
  opening follows.  The session is taken when \<^verbatim>\<open>openpicoport\<close> has come to its end.
\<close>

definition connect_click :: "selection \<Rightarrow> bool \<Rightarrow> bool \<Rightarrow> session \<Rightarrow> session" where
  "connect_click sel opens closes s =
     (if picoport s then disconnectFromPort closes s
      else
        (case sel of
           Listed \<Rightarrow> openpicoport_opening opens (start_reader Passthrough (s\<lparr>picoport := True\<rparr>))
         | Prompt chosen \<Rightarrow>
             openpicoport_opening opens ((start_reader Passthrough s)\<lparr>picoport := chosen\<rparr>)))"

text \<open>
  What the user does, one thing after the other: a click on the connect button, on the
  save, load, run or stop button.  Each is taken to the point where its handler has
  come to its end or waits for a read that never settles.  The handler of the stop
  button calls \<^verbatim>\<open>pico.sendCommand('\x03')\<close> without \<^verbatim>\<open>await\<close>.  \<open>Settled\<close> is not
  a click: a write issued without \<^verbatim>\<open>await\<close> has settled, and the suspended
  \<^verbatim>\<open>sendCommand\<close> goes on.
\<close>

datatype operation =
    Connect selection bool bool
  | Save jstring jstring
  | Load
  | Run jstring
  | Stop
  | Settled

fun perform :: "operation \<Rightarrow> session \<Rightarrow> session" where
  "perform (Connect sel opens closes) s = connect_click sel opens closes s"
| "perform (Save filename content) s = snd (writeFile filename content s)"
| "perform Load s = snd (loadTempPy s)"
| "perform (Run content) s = snd (runCode content s)"
| "perform Stop s = sendCommand_start [0x03] s"
| "perform Settled s = sendCommand_finish s"

fun run :: "operation list \<Rightarrow> session \<Rightarrow> session" where
  "run [] s = s"
| "run (a # as) s = run as (perform a s)"

section \<open>Sessions and observations used in the statements\<close>

text \<open>A port that is open in both directions with the terminal loop reading from it.\<close>

definition streaming :: session where
  "streaming =
     \<lparr>picoport = True, readable = True, writable = True, picoreader = Some Passthrough,
      writer = NoWriter, sending = False, incoming = [], wfaults = [],
      write_settles = False, trace = []\<rparr>"

text \<open>No port is selected.\<close>

definition disconnected :: session where
  "disconnected =
     \<lparr>picoport = False, readable = False, writable = False, picoreader = None,
      writer = NoWriter, sending = False, incoming = [], wfaults = [],
      write_settles = False, trace = []\<rparr>"

text \<open>
  An open port on which the device will answer a load: the acknowledgement \<^verbatim>\<open>OK\<close>
  in a chunk of its own, then the output and the byte 0x04.
\<close>

definition answering :: session where
  "answering = streaming\<lparr>incoming :=
     [Chunk (bytes_of ''OK''), Chunk (bytes_of ''x = 1'' @ [0x0D, 0x0A, 0x04])]\<rparr>"

text \<open>An open port that no loop is reading from.\<close>

definition opened :: session where
  "opened = streaming\<lparr>picoreader := None\<rparr>"

text \<open>
  The texts of successive chunks, the decoder carried from each to the next, and the
  text of the whole stream: the bytes of all chunks, decoded in one piece.
\<close>

fun decode_chunks :: "utf8_decoder \<Rightarrow> byte list list \<Rightarrow> jstring list" where
  "decode_chunks d [] = []"
| "decode_chunks d (v # vs) = (let (t, d') = decode d v in t # decode_chunks d' vs)"

definition stream_text :: "byte list list \<Rightarrow> jstring" where
  "stream_text chunks = fst (decode new_TextDecoder (concat chunks))"

text \<open>The values \<^verbatim>\<open>editor.setValue\<close> was called with.\<close>

fun editor_values :: "event list \<Rightarrow> jstring list" where
  "editor_values [] = []"
| "editor_values (SetEditor result # es) = result # editor_values es"
| "editor_values (e # es) = editor_values es"

fun is_write :: "event \<Rightarrow> bool" where
  "is_write (Write str) = True"
| "is_write e = False"

text \<open>The events of an operation: those of the session after it that the session before it did not have.\<close>

definition events_since :: "session \<Rightarrow> session \<Rightarrow> event list" where
  "events_since s t = drop (length (trace s)) (trace t)"

text \<open>The number of writes under each acquired writer, from \<open>GetWriter\<close> to its release.\<close>

fun lease_writes :: "event list \<Rightarrow> nat list" where
  "lease_writes [] = []"
| "lease_writes (GetWriter # es) =
     length (filter is_write (takeWhile (\<lambda>e. e \<noteq> WriterRelease) es)) # lease_writes es"
| "lease_writes (e # es) = lease_writes es"

text \<open>The strings that the loop of \<^verbatim>\<open>writeFile\<close> over the lines writes, in order.\<close>

fun line_texts :: "jstring list \<Rightarrow> jstring list" where
  "line_texts [] = []"
| "line_texts [line] =
     (if strip_eol line \<noteq> []
      then [js ''  f.write('' @ JSON_stringify (strip_eol line) @ js '')''] else [])"
| "line_texts (line # lines) =
     (js ''  f.write('' @ JSON_stringify (strip_eol line @ [0x0A]) @ js '')'' @ [0x0D])
       # line_texts lines"

text \<open>The strings \<^verbatim>\<open>writeFile\<close> writes under its own writer.\<close>

definition push_texts :: "jstring \<Rightarrow> jstring \<Rightarrow> jstring list" where
  \<open>push_texts filename content =
     [0x01] # (js ''with open("'' @ filename @ js ''", "w") as f:'' @ [0x0D])
       # line_texts (split_lines content) @ [[0x04]]\<close>

text \<open>The events of the write end: a writer is acquired, writes, is released.\<close>

fun writer_event :: "event \<Rightarrow> bool" where
  "writer_event GetWriter = True"
| "writer_event (Write str) = True"
| "writer_event WriterRelease = True"
| "writer_event e = False"

fun reader_event :: "event \<Rightarrow> bool" where
  "reader_event ReaderCancel = True"
| "reader_event (GetReader r) = True"
| "reader_event ReaderRelease = True"
| "reader_event TermError = True"
| "reader_event e = False"

text \<open>The reads that never end a loop without a marker: chunks only.\<close>

fun only_chunks :: "read_result list \<Rightarrow> bool" where
  "only_chunks [] = True"
| "only_chunks (Chunk v # rs) = only_chunks rs"
| "only_chunks (r # rs) = False"

text \<open>The events of a loop without a marker that meets these reads.\<close>

fun drain_end :: "read_result list \<Rightarrow> event list" where
  "drain_end [] = []"
| "drain_end (Chunk v # rs) = drain_end rs"
| "drain_end (Done # rs) = [ReaderRelease]"
| "drain_end (Failed # rs) = [TermError, ReaderRelease]"

text \<open>
  The discipline of the reader on a list of events, from a moment at which a reader is
  held or not: a reader is acquired only when none is held, and released only when one
  is held.  \<open>reader_held\<close> says whether one is held after the events, and
  \<open>readers_active\<close> counts the readers acquired and not released.
\<close>

fun one_reader :: "bool \<Rightarrow> event list \<Rightarrow> bool" where
  "one_reader held [] = True"
| "one_reader held (GetReader r # es) = (\<not> held \<and> one_reader True es)"
| "one_reader held (ReaderRelease # es) = (held \<and> one_reader False es)"
| "one_reader held (e # es) = one_reader held es"

fun reader_held :: "bool \<Rightarrow> event list \<Rightarrow> bool" where
  "reader_held held [] = held"
| "reader_held held (GetReader r # es) = reader_held True es"
| "reader_held held (ReaderRelease # es) = reader_held False es"
| "reader_held held (e # es) = reader_held held es"

fun readers_active :: "nat \<Rightarrow> event list \<Rightarrow> nat" where
  "readers_active k [] = k"
| "readers_active k (GetReader r # es) = readers_active (Suc k) es"
| "readers_active k (ReaderRelease # es) = readers_active (k - 1) es"
| "readers_active k (e # es) = readers_active k es"

text \<open>
  The events of the session obey the discipline, and \<^verbatim>\<open>picoserial.picoreader\<close> is set
  exactly when they leave a reader held.
\<close>

definition lease_kept :: "session \<Rightarrow> bool" where
  "lease_kept s \<longleftrightarrow>
     one_reader False (trace s) \<and> reader_held False (trace s) = (picoreader s \<noteq> None)"

text \<open>An action that keeps the discipline of the reader, from every session.\<close>

definition keeps_lease :: "'a action \<Rightarrow> bool" where
  "keeps_lease a \<longleftrightarrow> (\<forall>s. lease_kept s \<longrightarrow> lease_kept (snd (a s)))"

text \<open>
  Two relations between the session before a step and the session after it.  In
  \<open>no_reading\<close> the step has left the port, the reader and the incoming data alone and
  has added no event of the reader.  In \<open>port_kept\<close> the port is as it was, the events
  before the step are kept, and the step has not started the terminal loop.
\<close>

definition no_reading :: "session \<Rightarrow> session \<Rightarrow> bool" where
  "no_reading s t \<longleftrightarrow>
     picoport t = picoport s \<and> readable t = readable s \<and> writable t = writable s
     \<and> picoreader t = picoreader s \<and> incoming t = incoming s
     \<and> (\<exists>evs. trace t = trace s @ evs \<and> (\<forall>e \<in> set evs. \<not> reader_event e))"

definition port_kept :: "session \<Rightarrow> session \<Rightarrow> bool" where
  "port_kept s t \<longleftrightarrow>
     picoport t = picoport s \<and> readable t = readable s \<and> writable t = writable s
     \<and> (picoreader s \<noteq> Some Passthrough \<longrightarrow> picoreader t \<noteq> Some Passthrough)
     \<and> (\<exists>evs. trace t = trace s @ evs \<and> GetReader Passthrough \<notin> set evs)"

text \<open>The same for actions, from every session.\<close>

definition reads_nothing :: "'a action \<Rightarrow> bool" where
  "reads_nothing a \<longleftrightarrow> (\<forall>s. no_reading s (snd (a s)))"

definition keeps_port :: "'a action \<Rightarrow> bool" where
  "keeps_port a \<longleftrightarrow> (\<forall>s. port_kept s (snd (a s)))"

section \<open>Basic facts\<close>

lemma emit_fields [simp]:
  "picoport (emit evs s) = picoport s" "readable (emit evs s) = readable s"
  "writable (emit evs s) = writable s" "picoreader (emit evs s) = picoreader s"
  "writer (emit evs s) = writer s" "incoming (emit evs s) = incoming s"
  "wfaults (emit evs s) = wfaults s" "trace (emit evs s) = trace s @ evs"
  "sending (emit evs s) = sending s" "write_settles (emit evs s) = write_settles s"
  by (simp_all add: emit_def)

lemma emit_emit [simp]: "emit ys (emit xs s) = emit (xs @ ys) s"
  by (simp add: emit_def)

lemma emit_update [simp]:
  "emit evs (s\<lparr>writer := w\<rparr>) = (emit evs s)\<lparr>writer := w\<rparr>"
  "emit evs (s\<lparr>picoreader := r\<rparr>) = (emit evs s)\<lparr>picoreader := r\<rparr>"
  "emit evs (s\<lparr>wfaults := fs\<rparr>) = (emit evs s)\<lparr>wfaults := fs\<rparr>"
  "emit evs (s\<lparr>incoming := rs\<rparr>) = (emit evs s)\<lparr>incoming := rs\<rparr>"
  "emit evs (s\<lparr>sending := b\<rparr>) = (emit evs s)\<lparr>sending := b\<rparr>"
  by (simp_all add: emit_def)

lemma run_all_append:
  "run_all (as @ bs) s =
     (case run_all as s of
        (Fulfilled _, s') \<Rightarrow> run_all bs s'
      | (Rejected e, s') \<Rightarrow> (Rejected e, s')
      | (Pending, s') \<Rightarrow> (Pending, s'))"
  by (induction as arbitrary: s) (auto split: prod.splits outcome.splits)

lemma events_since_emit [simp]: "events_since s (emit evs s) = evs"
  by (simp add: events_since_def)

subsection \<open>The steps of the reader\<close>

lemma trace_start_reader:
  "trace (start_reader r s) =
     trace s @ (if picoport s \<and> readable s \<and> picoreader s = None then [GetReader r] else [])"
  by (simp add: start_reader_def)

lemma start_fields [simp]:
  "picoport (start_reader r s) = picoport s" "readable (start_reader r s) = readable s"
  "writable (start_reader r s) = writable s" "writer (start_reader r s) = writer s"
  "wfaults (start_reader r s) = wfaults s" "incoming (start_reader r s) = incoming s"
  "sending (start_reader r s) = sending s" "write_settles (start_reader r s) = write_settles s"
  by (simp_all add: start_reader_def)

lemma picoreader_start:
  "picoreader (start_reader r s) =
     (if picoport s \<and> readable s \<and> picoreader s = None then Some r else picoreader s)"
  by (simp add: start_reader_def)

lemma trace_cancel_picoreader:
  "trace (cancel_picoreader s) =
     trace s @ (if picoreader s = None then []
                else [ReaderCancel, ReaderRelease]
                       @ (if write_settles s \<and> sending s \<and> writer s = Held
                          then [WriterRelease] else []))"
  by (simp add: cancel_picoreader_def sendCommand_finish_def releaseLock_def Let_def
      split: option.splits writer_ref.splits)

lemma picoreader_cancel [simp]: "picoreader (cancel_picoreader s) = None"
  by (simp add: cancel_picoreader_def sendCommand_finish_def releaseLock_def Let_def
      split: option.splits writer_ref.splits)

lemma cancel_fields [simp]:
  "picoport (cancel_picoreader s) = picoport s" "readable (cancel_picoreader s) = readable s"
  "writable (cancel_picoreader s) = writable s"
  "wfaults (cancel_picoreader s) = wfaults s" "incoming (cancel_picoreader s) = incoming s"
  "write_settles (cancel_picoreader s) = write_settles s"
  by (simp_all add: cancel_picoreader_def sendCommand_finish_def releaseLock_def Let_def
      split: option.splits writer_ref.splits)

lemma writer_cancel:
  "writer (cancel_picoreader s) =
     (if picoreader s \<noteq> None \<and> write_settles s \<and> sending s \<and> writer s = Held
      then Released else writer s)"
  by (simp add: cancel_picoreader_def sendCommand_finish_def releaseLock_def Let_def
      split: option.splits writer_ref.splits)

lemma writer_cancel_free [simp]:
  "writer s \<noteq> Held \<Longrightarrow> writer (cancel_picoreader s) = writer s"
  by (simp add: writer_cancel)

lemma cancel_none [simp]: "picoreader s = None \<Longrightarrow> cancel_picoreader s = s"
  by (simp add: cancel_picoreader_def)

lemma hit_None [simp]: "\<not> hit None chunk"
  by (simp add: hit_def)

lemma readFromPort_None:
  "readFromPort None d rs = (chunks, e, rest) \<Longrightarrow>
     (e = Awaiting \<longleftrightarrow> only_chunks rs)
     \<and> drain_end rs =
         (case e of Returned \<Rightarrow> [ReaderRelease] | Threw \<Rightarrow> [TermError, ReaderRelease]
          | Awaiting \<Rightarrow> [])"
proof (induction rs arbitrary: d chunks e rest)
  case Nil
  then show ?case by auto
next
  case (Cons r rs)
  show ?case
  proof (cases r)
    case (Chunk v)
    obtain t d' where dec: "decode d v = (t, d')" by (cases "decode d v")
    obtain cs e' rest' where rec: "readFromPort None d' rs = (cs, e', rest')"
      by (cases "readFromPort None d' rs") auto
    from Cons.prems have "e = e'"
      by (simp add: Chunk dec rec)
    with Cons.IH [OF rec] show ?thesis by (simp add: Chunk)
  next
    case Done
    with Cons.prems show ?thesis by auto
  next
    case Failed
    with Cons.prems show ?thesis by auto
  qed
qed

lemma drain_fields [simp]:
  "picoport (drain_reads s) = picoport s" "readable (drain_reads s) = readable s"
  "writable (drain_reads s) = writable s" "writer (drain_reads s) = writer s"
  "wfaults (drain_reads s) = wfaults s" "sending (drain_reads s) = sending s"
  "write_settles (drain_reads s) = write_settles s"
  by (simp_all add: drain_reads_def read_loop_def Let_def split: prod.splits gen_end.splits)

lemma trace_drain_reads:
  "trace (drain_reads s) =
     trace s @ (if picoreader s = Some Scanning then drain_end (incoming s) else [])"
  by (auto simp: drain_reads_def read_loop_def Let_def dest!: readFromPort_None
      split: prod.splits gen_end.splits)

lemma picoreader_drain_reads:
  "picoreader (drain_reads s) =
     (if picoreader s = Some Scanning \<and> \<not> only_chunks (incoming s) then None
      else picoreader s)"
  by (auto simp: drain_reads_def read_loop_def Let_def dest!: readFromPort_None
      split: prod.splits gen_end.splits)

lemma drain_end_events: "set (drain_end rs) \<subseteq> {TermError, ReaderRelease}"
  by (induction rs rule: drain_end.induct) auto

lemma drain_end_only_chunks: "only_chunks rs \<Longrightarrow> drain_end rs = []"
  by (induction rs rule: drain_end.induct) auto

lemma writes_drain_end [simp]: "filter is_write (drain_end rs) = []"
  by (induction rs rule: drain_end.induct) auto

lemma writes_start_reader [simp]:
  "filter is_write (trace (start_reader r s)) = filter is_write (trace s)"
  by (simp add: start_reader_def emit_def)

lemma writes_cancel_picoreader [simp]:
  "filter is_write (trace (cancel_picoreader s)) = filter is_write (trace s)"
  by (simp add: trace_cancel_picoreader)

subsection \<open>The operations with no writable port\<close>

lemma sendCommand_no_port:
  "\<not> (picoport s \<and> writable s) \<Longrightarrow> sendCommand c s = (Fulfilled (), s\<lparr>writer := NoWriter\<rparr>)"
  by (auto simp: sendCommand_def bind_def prepareWritablePort_def stmt_def)

lemma runCode_no_port:
  "\<not> (picoport s \<and> writable s) \<Longrightarrow> runCode c s = (Fulfilled (), s\<lparr>writer := NoWriter\<rparr>)"
  by (auto simp: runCode_def bind_def prepareWritablePort_def stmt_def)

lemma writeFile_no_port:
  assumes "\<not> (picoport s \<and> writable s)"
  shows "writeFile f c s =
    (Fulfilled (),
     start_reader Passthrough
       (cancel_picoreader ((start_reader Scanning (cancel_picoreader s))\<lparr>writer := NoWriter\<rparr>)))"
proof -
  let ?s2 = "start_reader Scanning (cancel_picoreader s)"
  have "\<not> (picoport ?s2 \<and> writable ?s2)"
    using assms by simp
  then show ?thesis
    by (auto simp: writeFile_def writeFile_body_def bind_def prepareWritablePort_def stmt_def)
qed

subsection \<open>The operations when every write succeeds\<close>

lemma pico_write_ok:
  "writer s = Held \<Longrightarrow> wfaults s = [] \<Longrightarrow> pico_write str s = (Fulfilled (), emit [Write str] s)"
  by (simp add: pico_write_def)

lemma run_all_writes_ok:
  "writer s = Held \<Longrightarrow> wfaults s = [] \<Longrightarrow>
   run_all (map pico_write strs) s = (Fulfilled (), emit (map Write strs) s)"
proof (induction strs arbitrary: s)
  case Nil
  then show ?case by (simp add: emit_def)
next
  case (Cons str strs)
  then show ?case by (simp add: pico_write_ok)
qed

lemma line_writes_texts: "line_writes lines = map pico_write (line_texts lines)"
  by (induction lines rule: line_writes.induct) (simp_all add: Let_def)

lemma sendCommand_ok:
  assumes "picoport s" "writable s" "writer s \<noteq> Held" "wfaults s = []"
  shows "sendCommand c s =
    (Fulfilled (), emit [GetWriter, Write c, WriterRelease] (s\<lparr>writer := Released\<rparr>))"
  using assms
  by (simp add: sendCommand_def bind_def prepareWritablePort_def pico_write_ok stmt_def
      releaseLock_def)

lemma runCode_ok:
  assumes "picoport s" "writable s" "writer s \<noteq> Held" "wfaults s = []"
  shows "runCode c s =
    (Fulfilled (),
     emit [GetWriter, Write [0x01], Write c, Write [0x04], Write [0x02], WriterRelease]
       (s\<lparr>writer := Released\<rparr>))"
  using assms
  by (simp add: runCode_def bind_def prepareWritablePort_def pico_write_ok stmt_def
      releaseLock_def)

lemma sendCommand_start_ok:
  assumes "picoport s" "writable s" "writer s \<noteq> Held" "wfaults s = []"
  shows "sendCommand_start c s = (emit [GetWriter, Write c] s)\<lparr>writer := Held, sending := True\<rparr>"
  using assms
  by (simp add: sendCommand_start_def prepareWritablePort_def pico_write_ok)

lemma sendCommand_start_no_port:
  "\<not> (picoport s \<and> writable s) \<Longrightarrow> sendCommand_start c s = s\<lparr>writer := NoWriter\<rparr>"
  by (auto simp: sendCommand_start_def prepareWritablePort_def)

lemma writeFile_ok:
  assumes "picoport s" "writable s" "writer s \<noteq> Held" "wfaults s = []"
  shows "writeFile f c s =
    (Fulfilled (),
     start_reader Passthrough
       (cancel_picoreader
          ((emit (map Write (tl (push_texts f c)) @ [WriterRelease, GetWriter, Write [0x02]])
              (drain_reads
                 (emit [GetWriter, Write [0x01]]
                    ((start_reader Scanning (cancel_picoreader s))\<lparr>writer := Held\<rparr>))))
           \<lparr>writer := Held, sending := True\<rparr>)))"
proof -
  let ?s2 = "start_reader Scanning (cancel_picoreader s)"
  have s2: "picoport ?s2" "writable ?s2" "writer ?s2 \<noteq> Held" "wfaults ?s2 = []"
    using assms by simp_all
  let ?s3 = "emit [GetWriter] (?s2\<lparr>writer := Held\<rparr>)"
  have prep: "prepareWritablePort ?s2 = (Fulfilled True, ?s3)"
    using s2 by (simp add: prepareWritablePort_def)
  let ?s4 = "drain_reads (emit [Write [0x01]] ?s3)"
  have first: "awaiting drain_reads (pico_write [0x01]) ?s3 = (Fulfilled (), ?s4)"
    using s2 by (simp add: awaiting_def pico_write_ok)
  have s4: "writer ?s4 = Held" "wfaults ?s4 = []" "picoport ?s4" "writable ?s4"
    using s2 by simp_all
  let ?s5 = "emit (map Write (tl (push_texts f c))) ?s4"
  have w: "run_all (map pico_write (tl (push_texts f c))) ?s4 = (Fulfilled (), ?s5)"
    by (rule run_all_writes_ok [OF s4(1,2)])
  let ?s6 = "emit [WriterRelease] (?s5\<lparr>writer := Released\<rparr>)"
  have rel: "releaseLock ?s5 = ?s6"
    using s4 by (simp add: releaseLock_def)
  have sc: "sendCommand_start [0x02] ?s6 =
      (emit [GetWriter, Write [0x02]] ?s6)\<lparr>writer := Held, sending := True\<rparr>"
    by (rule sendCommand_start_ok) (use s4 in simp_all)
  have list_eq: \<open>[awaiting drain_reads (pico_write [0x01]),
                pico_write (js ''with open("'' @ f @ js ''", "w") as f:'' @ [0x0D])]
               @ line_writes (split_lines c)
               @ [pico_write [0x04], stmt releaseLock, stmt (sendCommand_start [0x02])]
         = awaiting drain_reads (pico_write [0x01]) # map pico_write (tl (push_texts f c))
             @ [stmt releaseLock, stmt (sendCommand_start [0x02])]\<close>
    by (simp add: push_texts_def line_writes_texts)
  have fin: "(emit [GetWriter, Write [0x02]] ?s6)\<lparr>writer := Held, sending := True\<rparr>
      = (emit (map Write (tl (push_texts f c)) @ [WriterRelease, GetWriter, Write [0x02]])
              (drain_reads (emit [GetWriter, Write [0x01]] (?s2\<lparr>writer := Held\<rparr>))))
           \<lparr>writer := Held, sending := True\<rparr>"
    by (simp add: emit_def)
  show ?thesis
    unfolding writeFile_def writeFile_body_def list_eq
    by (simp add: stmt_def bind_def prep first run_all_append w rel sc fin
        del: emit_emit emit_update)
qed

lemma writeFile_events:
  assumes "picoport s" "writable s" "writer s \<noteq> Held" "wfaults s = []"
  shows "events_since s (snd (writeFile f c s)) =
     (if picoreader s = None then [] else [ReaderCancel, ReaderRelease])
     @ (if readable s then [GetReader Scanning] else [])
     @ [GetWriter, Write [0x01]]
     @ (if readable s then drain_end (incoming s) else [])
     @ map Write (tl (push_texts f c))
     @ [WriterRelease, GetWriter, Write [0x02]]
     @ (if readable s \<and> only_chunks (incoming s)
        then [ReaderCancel, ReaderRelease] @ (if write_settles s then [WriterRelease] else [])
        else [])
     @ (if readable s then [GetReader Passthrough] else [])"
  using assms
  by (simp add: writeFile_ok events_since_def trace_start_reader trace_cancel_picoreader
      picoreader_start trace_drain_reads picoreader_drain_reads)

subsection \<open>Combining steps\<close>

lemma no_reading_refl [simp]: "no_reading s s"
  by (simp add: no_reading_def)

lemma no_reading_trans: "no_reading s t \<Longrightarrow> no_reading t u \<Longrightarrow> no_reading s u"
  unfolding no_reading_def by (elim conjE exE) auto

lemma port_kept_refl [simp]: "port_kept s s"
  by (simp add: port_kept_def)

lemma port_kept_trans: "port_kept s t \<Longrightarrow> port_kept t u \<Longrightarrow> port_kept s u"
  unfolding port_kept_def by auto

lemma no_reading_port_kept: "no_reading s t \<Longrightarrow> port_kept s t"
  unfolding no_reading_def port_kept_def
proof (elim conjE exE, intro conjI)
  fix evs
  assume "trace t = trace s @ evs" "\<forall>e \<in> set evs. \<not> reader_event e"
  then have "trace t = trace s @ evs \<and> GetReader Passthrough \<notin> set evs"
    by auto
  then show "\<exists>evs. trace t = trace s @ evs \<and> GetReader Passthrough \<notin> set evs" ..
qed simp_all

lemma run_all_rel:
  assumes refl: "\<And>s. R s s"
    and trans: "\<And>s t u. R s t \<Longrightarrow> R t u \<Longrightarrow> R s u"
    and step: "\<And>a s. a \<in> set as \<Longrightarrow> R s (snd (a s))"
  shows "R s (snd (run_all as s))"
  using step
proof (induction as arbitrary: s)
  case Nil
  show ?case by (simp add: refl)
next
  case (Cons a as)
  obtain r s' where a: "a s = (r, s')" by (cases "a s")
  have 1: "R s s'" using Cons.prems [of a s] a by simp
  show ?case
  proof (cases r)
    case (Fulfilled x)
    have "R s' (snd (run_all as s'))" by (rule Cons.IH) (simp add: Cons.prems)
    with 1 show ?thesis using a Fulfilled by (auto intro: trans)
  qed (use a 1 in simp_all)
qed

lemma bind_rel:
  assumes trans: "\<And>s t u. R s t \<Longrightarrow> R t u \<Longrightarrow> R s u"
    and m: "R s (snd (m s))"
    and f: "\<And>a s'. m s = (Fulfilled a, s') \<Longrightarrow> R s' (snd (f a s'))"
  shows "R s (snd (bind m f s))"
proof -
  obtain r s' where ms: "m s = (r, s')" by (cases "m s")
  show ?thesis
  proof (cases r)
    case (Fulfilled a)
    then have "R s' (snd (f a s'))" using f ms by simp
    moreover have "R s s'" using m ms by simp
    ultimately show ?thesis using ms Fulfilled by (auto simp: bind_def intro: trans)
  qed (use m ms in \<open>simp_all add: bind_def\<close>)
qed

lemma run_all_rejected:
  assumes "\<And>a s. a \<in> set as \<Longrightarrow> fst (a s) = Rejected e \<Longrightarrow> P (snd (a s))"
    and "fst (run_all as s) = Rejected e"
  shows "P (snd (run_all as s))"
  using assms
proof (induction as arbitrary: s)
  case Nil
  then show ?case by simp
next
  case (Cons a as)
  obtain r s' where a: "a s = (r, s')" by (cases "a s")
  show ?case
  proof (cases r)
    case (Fulfilled x)
    then show ?thesis using Cons a by simp
  next
    case (Rejected e')
    then show ?thesis using Cons.prems(1) [of a s] Cons.prems(2) a by simp
  next
    case Pending
    then show ?thesis using Cons.prems(2) a by simp
  qed
qed

lemma reads_nothing_prepare [simp]: "reads_nothing prepareWritablePort"
  by (simp add: reads_nothing_def prepareWritablePort_def no_reading_def)

lemma reads_nothing_write [simp]: "reads_nothing (pico_write str)"
  by (simp add: reads_nothing_def pico_write_def no_reading_def split: writer_ref.splits list.splits)

lemma reads_nothing_release [simp]: "reads_nothing (stmt releaseLock)"
  by (simp add: reads_nothing_def stmt_def releaseLock_def no_reading_def split: writer_ref.splits)

lemma reads_nothing_id [simp]: "reads_nothing (stmt id)"
  by (simp add: reads_nothing_def stmt_def)

lemma reads_nothing_run_all: "(\<And>a. a \<in> set as \<Longrightarrow> reads_nothing a) \<Longrightarrow> reads_nothing (run_all as)"
  unfolding reads_nothing_def
  by (intro allI run_all_rel [where R = no_reading]) (auto intro: no_reading_trans)

lemma reads_nothing_bind:
  "reads_nothing m \<Longrightarrow> (\<And>a. reads_nothing (f a)) \<Longrightarrow> reads_nothing (bind m f)"
  unfolding reads_nothing_def
  by (intro allI bind_rel [where R = no_reading]) (auto intro: no_reading_trans)

lemma reads_nothing_sendCommand_start [simp]: "reads_nothing (stmt (sendCommand_start c))"
  by (simp add: reads_nothing_def stmt_def sendCommand_start_def prepareWritablePort_def
      pico_write_def no_reading_def split: writer_ref.splits list.splits)

lemma reads_nothing_sendCommand_finish [simp]: "reads_nothing (stmt sendCommand_finish)"
  by (simp add: reads_nothing_def stmt_def sendCommand_finish_def releaseLock_def
      no_reading_def split: writer_ref.splits)

lemma reads_nothing_sendCommand [simp]: "reads_nothing (sendCommand c)"
  unfolding sendCommand_def
  by (auto intro!: reads_nothing_bind reads_nothing_run_all)

lemma reads_nothing_runCode [simp]: "reads_nothing (runCode c)"
  unfolding runCode_def
  by (auto intro!: reads_nothing_bind reads_nothing_run_all)

lemma run_all_fulfilled:
  assumes "\<And>a s x. a \<in> set as \<Longrightarrow> I s \<Longrightarrow> fst (a s) = Fulfilled x \<Longrightarrow> I (snd (a s))"
    and "I s" and "fst (run_all as s) = Fulfilled x"
  shows "I (snd (run_all as s))"
  using assms
proof (induction as arbitrary: s)
  case Nil
  then show ?case by simp
next
  case (Cons a as)
  obtain r s' where a: "a s = (r, s')" by (cases "a s")
  show ?case
  proof (cases r)
    case (Fulfilled y)
    have "I s'" using Cons.prems(1) [of a s y] Cons.prems(2) a Fulfilled by simp
    then show ?thesis using Cons a Fulfilled by simp
  qed (use Cons.prems(3) a in simp_all)
qed

lemma bind_fulfilledE:
  assumes "fst (bind m f s) = Fulfilled b"
  obtains a t where "m s = (Fulfilled a, t)" "bind m f s = f a t"
  using assms by (auto simp: bind_def split: prod.splits outcome.splits)

lemma bind_rejectedE:
  assumes "fst (bind m f s) = Rejected e"
  obtains "fst (m s) = Rejected e" "snd (bind m f s) = snd (m s)"
  | a t where "m s = (Fulfilled a, t)" "bind m f s = f a t"
  using assms by (auto simp: bind_def split: prod.splits outcome.splits)

lemma run_all_snoc_stmt:
  assumes "fst (run_all (as @ [stmt g]) s) = Fulfilled x"
  obtains s' where "snd (run_all (as @ [stmt g]) s) = g s'"
  using assms by (auto simp: run_all_append stmt_def split: prod.splits outcome.splits)

lemma writer_releaseLock [simp]: "writer (releaseLock s) \<noteq> Held"
  by (simp add: releaseLock_def split: writer_ref.splits)

lemma prepare_cases:
  obtains (closed) "\<not> (picoport s \<and> writable s)" "prepareWritablePort s = (Fulfilled False, s\<lparr>writer := NoWriter\<rparr>)"
  | (locked) "picoport s" "writable s" "writer s = Held" "prepareWritablePort s = (Rejected TypeError, s)"
  | (ok) "picoport s" "writable s" "writer s \<noteq> Held"
      "prepareWritablePort s = (Fulfilled True, emit [GetWriter] (s\<lparr>writer := Held\<rparr>))"
  by (cases "picoport s \<and> writable s"; cases "writer s = Held") (auto simp: prepareWritablePort_def)

lemma pico_write_rejected:
  "fst (pico_write str s) = Rejected TransportError \<Longrightarrow> writer (snd (pico_write str s)) = Held"
  by (auto simp: pico_write_def split: writer_ref.splits list.splits if_splits)

lemma sendCommand_fulfilled:
  assumes "fst (sendCommand c s) = Fulfilled ()"
  shows "writer (snd (sendCommand c s)) \<noteq> Held"
proof (cases s rule: prepare_cases)
  case closed
  then show ?thesis by (simp add: sendCommand_no_port)
next
  case locked
  then show ?thesis using assms by (simp add: sendCommand_def bind_def)
next
  case ok
  let ?t = "emit [GetWriter] (s\<lparr>writer := Held\<rparr>)"
  have eq: "sendCommand c s = run_all ([pico_write c] @ [stmt releaseLock]) ?t"
    using ok by (simp add: sendCommand_def bind_def)
  from assms obtain s' where "snd (sendCommand c s) = releaseLock s'"
    unfolding eq by (rule run_all_snoc_stmt)
  then show ?thesis by simp
qed

lemma runCode_fulfilled:
  assumes "fst (runCode c s) = Fulfilled ()"
  shows "writer (snd (runCode c s)) \<noteq> Held"
proof (cases s rule: prepare_cases)
  case closed
  then show ?thesis by (simp add: runCode_no_port)
next
  case locked
  then show ?thesis using assms by (simp add: runCode_def bind_def)
next
  case ok
  let ?t = "emit [GetWriter] (s\<lparr>writer := Held\<rparr>)"
  have eq: "runCode c s =
    run_all ([pico_write [0x01], pico_write c, pico_write [0x04], pico_write [0x02]]
             @ [stmt releaseLock]) ?t"
    using ok by (simp add: runCode_def bind_def)
  from assms obtain s' where "snd (runCode c s) = releaseLock s'"
    unfolding eq by (rule run_all_snoc_stmt)
  then show ?thesis by simp
qed

lemma stmt_fulfils [simp]: "fst (stmt g s) = Fulfilled ()" "snd (stmt g s) = g s"
  by (simp_all add: stmt_def)

lemma awaiting_fst [simp]: "fst (awaiting b m s) = fst (m s)"
  by (simp add: awaiting_def split: prod.splits)

lemma awaiting_snd [simp]: "snd (awaiting b m s) = b (snd (m s))"
  by (simp add: awaiting_def split: prod.splits)

lemma sendCommand_rejected:
  assumes "fst (sendCommand c s) = Rejected TransportError"
  shows "writer (snd (sendCommand c s)) = Held"
proof (cases s rule: prepare_cases)
  case closed
  then show ?thesis using assms by (simp add: sendCommand_no_port)
next
  case locked
  then show ?thesis using assms by (simp add: sendCommand_def bind_def)
next
  case ok
  let ?t = "emit [GetWriter] (s\<lparr>writer := Held\<rparr>)"
  have eq: "sendCommand c s = run_all [pico_write c, stmt releaseLock] ?t"
    using ok by (simp add: sendCommand_def bind_def)
  show ?thesis
    using assms unfolding eq
    by (rule run_all_rejected [rotated]) (auto dest: pico_write_rejected)
qed

lemma runCode_rejected:
  assumes "fst (runCode c s) = Rejected TransportError"
  shows "writer (snd (runCode c s)) = Held"
proof (cases s rule: prepare_cases)
  case closed
  then show ?thesis using assms by (simp add: runCode_no_port)
next
  case locked
  then show ?thesis using assms by (simp add: runCode_def bind_def)
next
  case ok
  let ?t = "emit [GetWriter] (s\<lparr>writer := Held\<rparr>)"
  have eq: "runCode c s =
    run_all [pico_write [0x01], pico_write c, pico_write [0x04], pico_write [0x02],
             stmt releaseLock] ?t"
    using ok by (simp add: runCode_def bind_def)
  show ?thesis
    using assms unfolding eq
    by (rule run_all_rejected [rotated]) (auto dest: pico_write_rejected)
qed


lemma writeFile_unfold:
  "writeFile f c s =
     (case writeFile_body f c (start_reader Scanning (cancel_picoreader s)) of
        (Fulfilled _, t) \<Rightarrow> (Fulfilled (), start_reader Passthrough (cancel_picoreader t))
      | (Rejected e, t) \<Rightarrow> (Rejected e, t)
      | (Pending, t) \<Rightarrow> (Pending, t))"
  by (simp add: writeFile_def stmt_def split: prod.splits outcome.splits)

lemma writeFile_body_rejected:
  assumes "fst (writeFile_body f c s) = Rejected TransportError"
  shows "writer (snd (writeFile_body f c s)) = Held"
proof (cases s rule: prepare_cases)
  case closed
  then show ?thesis using assms by (simp add: writeFile_body_def bind_def)
next
  case locked
  then show ?thesis using assms by (simp add: writeFile_body_def bind_def)
next
  case ok
  let ?t = "emit [GetWriter] (s\<lparr>writer := Held\<rparr>)"
  have eq: \<open>writeFile_body f c s =
    run_all ([awaiting drain_reads (pico_write [0x01]),
             pico_write (js ''with open("'' @ f @ js ''", "w") as f:'' @ [0x0D])]
            @ line_writes (split_lines c)
            @ [pico_write [0x04], stmt releaseLock, stmt (sendCommand_start [0x02])]) ?t\<close>
    using ok by (simp add: writeFile_body_def bind_def)
  show ?thesis
    using assms unfolding eq
    by (rule run_all_rejected [rotated]) (auto dest: pico_write_rejected simp: line_writes_texts)
qed

lemma writeFile_rejected:
  assumes "fst (writeFile f c s) = Rejected TransportError"
  shows "writer (snd (writeFile f c s)) = Held"
proof -
  let ?s2 = "start_reader Scanning (cancel_picoreader s)"
  obtain r t where b: "writeFile_body f c ?s2 = (r, t)" by (cases "writeFile_body f c ?s2")
  with assms have "r = Rejected TransportError" "snd (writeFile f c s) = t"
    by (auto simp: writeFile_unfold split: outcome.splits)
  then show ?thesis using writeFile_body_rejected [of f c ?s2] b by simp
qed

lemma writeFile_fulfils:
  assumes "writer s \<noteq> Held" "wfaults s = []"
  shows "fst (writeFile f c s) = Fulfilled ()"
proof (cases "picoport s \<and> writable s")
  case False
  then show ?thesis by (simp add: writeFile_no_port)
next
  case True
  with assms show ?thesis by (simp add: writeFile_ok)
qed

lemma writeFile_writer:
  assumes "picoport s" "writable s" "writer s \<noteq> Held" "wfaults s = []"
  shows "writer (snd (writeFile f c s)) =
     (if readable s \<and> only_chunks (incoming s) \<and> write_settles s then Released else Held)"
  using assms
  by (simp add: writeFile_ok writer_cancel picoreader_drain_reads picoreader_start)

lemma lease_writes_skip:
  "GetWriter \<notin> set es \<Longrightarrow> lease_writes (es @ fs) = lease_writes fs"
  by (induction es rule: lease_writes.induct) simp_all

lemma lease_writes_writes [simp]: "lease_writes (map Write strs @ es) = lease_writes es"
  by (rule lease_writes_skip) auto

lemma takeWhile_writes [simp]:
  "takeWhile (\<lambda>e. e \<noteq> WriterRelease) (map Write strs @ es) =
     map Write strs @ takeWhile (\<lambda>e. e \<noteq> WriterRelease) es"
  by (induction strs) simp_all

lemma filter_writes [simp]: "filter is_write (map Write strs) = map Write strs"
  by (induction strs) simp_all

lemma lease_writes_drain [simp]: "lease_writes (drain_end rs @ es) = lease_writes es"
  by (rule lease_writes_skip) (use drain_end_events [of rs] in auto)

lemma takeWhile_drain [simp]:
  "takeWhile (\<lambda>e. e \<noteq> WriterRelease) (drain_end rs @ es) =
     drain_end rs @ takeWhile (\<lambda>e. e \<noteq> WriterRelease) es"
  by (rule takeWhile_append2) (use drain_end_events [of rs] in auto)

lemma sending_cancel:
  "sending (cancel_picoreader s) =
     (if picoreader s \<noteq> None \<and> write_settles s then False else sending s)"
  by (simp add: cancel_picoreader_def sendCommand_finish_def releaseLock_def Let_def
      split: option.splits writer_ref.splits)

lemma writer_events_drain_end [simp]: "filter writer_event (drain_end rs) = []"
  by (induction rs rule: drain_end.induct) auto

lemma writer_events_writes [simp]: "filter writer_event (map Write strs) = map Write strs"
  by (induction strs) simp_all

lemma push_texts_tl: "push_texts f c = [0x01] # tl (push_texts f c)"
  by (simp add: push_texts_def)

lemma writeFile_writer_events:
  assumes "picoport s" "writable s" "writer s \<noteq> Held" "wfaults s = []"
  shows "filter writer_event (events_since s (snd (writeFile f c s))) =
     [GetWriter] @ map Write (push_texts f c) @ [WriterRelease, GetWriter, Write [0x02]]
     @ (if readable s \<and> only_chunks (incoming s) \<and> write_settles s
        then [WriterRelease] else [])"
  unfolding writeFile_events [OF assms]
  by (subst (2) push_texts_tl) simp

lemma writeFile_finished:
  assumes "picoport s" "writable s" "writer s \<noteq> Held" "wfaults s = []"
  shows "writer (sendCommand_finish (snd (writeFile f c s))) = Released"
  using assms
  by (simp add: writeFile_ok sendCommand_finish_def releaseLock_def writer_cancel
      sending_cancel picoreader_drain_reads picoreader_start)

subsection \<open>The reader across a transaction\<close>

lemma keeps_port_run_all: "(\<And>a. a \<in> set as \<Longrightarrow> keeps_port a) \<Longrightarrow> keeps_port (run_all as)"
  unfolding keeps_port_def
  by (intro allI run_all_rel [where R = port_kept]) (auto intro: port_kept_trans)

lemma keeps_port_bind:
  "keeps_port m \<Longrightarrow> (\<And>a. keeps_port (f a)) \<Longrightarrow> keeps_port (bind m f)"
  unfolding keeps_port_def
  by (intro allI bind_rel [where R = port_kept]) (auto intro: port_kept_trans)

lemma reads_nothing_keeps_port: "reads_nothing a \<Longrightarrow> keeps_port a"
  by (simp add: reads_nothing_def keeps_port_def no_reading_port_kept)

lemma reads_nothing_SetEditor [simp]: "reads_nothing (stmt (emit [SetEditor result]))"
  by (simp add: reads_nothing_def stmt_def no_reading_def)

lemma keeps_port_clearpicoport [simp]: "keeps_port (clearpicoport m)"
  by (auto simp: keeps_port_def port_kept_def clearpicoport_def read_loop_def Let_def
      split: prod.splits gen_end.splits)

lemma clearpicoport_fulfilled:
  "picoreader s = None \<Longrightarrow> fst (clearpicoport m s) = Fulfilled r \<Longrightarrow>
   picoreader (snd (clearpicoport m s)) = None"
  by (auto simp: clearpicoport_def read_loop_def Let_def
      split: prod.splits gen_end.splits if_splits)

lemma clearpicoport_not_rejected:
  "picoreader s = None \<Longrightarrow> fst (clearpicoport m s) \<noteq> Rejected e"
  by (auto simp: clearpicoport_def read_loop_def Let_def
      split: prod.splits gen_end.splits if_splits)

lemma port_kept_drain_reads: "port_kept s (drain_reads s)"
proof -
  have "GetReader Passthrough \<notin> set (drain_end (incoming s))"
    using drain_end_events [of "incoming s"] by auto
  then show ?thesis
    by (simp add: port_kept_def picoreader_drain_reads trace_drain_reads)
qed

lemma keeps_port_awaiting_drain: "keeps_port (awaiting drain_reads (pico_write str))"
proof -
  have "port_kept s (drain_reads (snd (pico_write str s)))" for s
    using no_reading_port_kept [of s "snd (pico_write str s)"]
      port_kept_drain_reads [of "snd (pico_write str s)"] reads_nothing_write [of str]
    by (auto simp: reads_nothing_def intro: port_kept_trans)
  then show ?thesis by (simp add: keeps_port_def)
qed

lemma keeps_port_writeFile_body [simp]: "keeps_port (writeFile_body f c)"
proof -
  let ?L = \<open>[awaiting drain_reads (pico_write [0x01]),
             pico_write (js ''with open("'' @ f @ js ''", "w") as f:'' @ [0x0D])]
            @ line_writes (split_lines c)
            @ [pico_write [0x04], stmt releaseLock, stmt (sendCommand_start [0x02])]\<close>
  have L: "keeps_port a" if "a \<in> set ?L" for a
  proof (cases "a = awaiting drain_reads (pico_write [0x01])")
    case True
    then show ?thesis by (simp add: keeps_port_awaiting_drain)
  next
    case False
    with that have "reads_nothing a"
      by (auto simp: line_writes_texts)
    then show ?thesis by (rule reads_nothing_keeps_port)
  qed
  have R: "keeps_port (run_all ?L)"
    by (rule keeps_port_run_all) (rule L)
  have I: "keeps_port (stmt id)"
    by (intro reads_nothing_keeps_port) simp
  have P: "keeps_port prepareWritablePort"
    by (intro reads_nothing_keeps_port) simp
  show ?thesis
    unfolding writeFile_body_def
  proof (rule keeps_port_bind [OF P])
    fix ok
    show "keeps_port (if ok then run_all ?L else stmt id)"
      using R I by (cases ok) (simp_all only: if_True if_False)
  qed
qed

lemma keeps_port_loadTempPy_body [simp]: "keeps_port loadTempPy_body"
proof -
  let ?W = \<open>run_all
                 [pico_write [0x01],
                  pico_write (js ''import os'' @ [0x0D]),
                  pico_write (js ''with open("temp.py") as f:'' @ [0x0D]),
                  pico_write (js ''  print(f.read())'' @ [0x0D]),
                  pico_write [0x04],
                  stmt releaseLock]\<close>
  let ?F = "\<lambda>result. run_all [stmt (sendCommand_start [0x02]), stmt (emit [SetEditor result])]"
  let ?K = "bind ?W (\<lambda>_.
         bind (clearpicoport (Some (js ''OK''))) (\<lambda>_.
         bind (clearpicoport (Some [0x04])) ?F))"
  have W: "keeps_port ?W"
    by (intro reads_nothing_keeps_port reads_nothing_run_all) auto
  have F: "keeps_port (?F r)" for r
    by (intro reads_nothing_keeps_port reads_nothing_run_all) auto
  have K: "keeps_port ?K"
    by (intro keeps_port_bind W F keeps_port_clearpicoport)
  have I: "keeps_port (stmt id)"
    by (intro reads_nothing_keeps_port) simp
  have P: "keeps_port prepareWritablePort"
    by (intro reads_nothing_keeps_port) simp
  show ?thesis
    unfolding loadTempPy_body_def
    by (rule keeps_port_bind [OF P]) (simp add: K I)
qed

lemma loadTempPy_unfold:
  "loadTempPy s =
     (case loadTempPy_body (cancel_picoreader s) of
        (Fulfilled _, t) \<Rightarrow> (Fulfilled (), start_reader Passthrough t)
      | (Rejected e, t) \<Rightarrow> (Rejected e, t)
      | (Pending, t) \<Rightarrow> (Pending, t))"
  by (simp add: loadTempPy_def stmt_def split: prod.splits outcome.splits)

lemma reads_nothingD: "reads_nothing a \<Longrightarrow> no_reading s (snd (a s))"
  by (simp add: reads_nothing_def)

lemma keeps_portD: "keeps_port a \<Longrightarrow> port_kept s (snd (a s))"
  by (simp add: keeps_port_def)

lemma loadTempPy_body_fulfilled:
  assumes "picoreader s = None" "fst (loadTempPy_body s) = Fulfilled ()"
  shows "picoreader (snd (loadTempPy_body s)) = None"
proof (cases s rule: prepare_cases)
  case closed
  then show ?thesis using assms by (simp add: loadTempPy_body_def bind_def stmt_def)
next
  case locked
  then show ?thesis using assms by (simp add: loadTempPy_body_def bind_def)
next
  case ok
  let ?t0 = "emit [GetWriter] (s\<lparr>writer := Held\<rparr>)"
  let ?W = \<open>run_all
                 [pico_write [0x01],
                  pico_write (js ''import os'' @ [0x0D]),
                  pico_write (js ''with open("temp.py") as f:'' @ [0x0D]),
                  pico_write (js ''  print(f.read())'' @ [0x0D]),
                  pico_write [0x04],
                  stmt releaseLock]\<close>
  let ?F = "\<lambda>result. run_all [stmt (sendCommand_start [0x02]), stmt (emit [SetEditor result])]"
  let ?K = "bind ?W (\<lambda>_.
         bind (clearpicoport (Some (js ''OK''))) (\<lambda>_.
         bind (clearpicoport (Some [0x04])) ?F))"
  have eq: "loadTempPy_body s = ?K ?t0"
    using ok by (simp add: loadTempPy_body_def bind_def)
  have W: "reads_nothing ?W"
    by (auto intro!: reads_nothing_run_all)
  have F: "reads_nothing (?F r)" for r
    by (auto intro!: reads_nothing_run_all)
  from assms(2) obtain u t1 where 1: "?W ?t0 = (Fulfilled u, t1)"
    and k1: "?K ?t0 = bind (clearpicoport (Some (js ''OK''))) (\<lambda>_.
         bind (clearpicoport (Some [0x04])) ?F) t1"
    unfolding eq by (rule bind_fulfilledE)
  have p1: "picoreader t1 = None"
    using reads_nothingD [OF W, of ?t0] 1 assms(1) by (simp add: no_reading_def)
  from assms(2) obtain r1 t2 where 2: "clearpicoport (Some (js ''OK'')) t1 = (Fulfilled r1, t2)"
    and k2: "?K ?t0 = bind (clearpicoport (Some [0x04])) ?F t2"
    unfolding eq k1 by (rule bind_fulfilledE) (simp add: k1)
  have p2: "picoreader t2 = None"
    using clearpicoport_fulfilled [OF p1, of "Some (js ''OK'')" r1] 2 by simp
  from assms(2) obtain r2 t3 where 3: "clearpicoport (Some [0x04]) t2 = (Fulfilled r2, t3)"
    and k3: "?K ?t0 = ?F r2 t3"
    unfolding eq k2 by (rule bind_fulfilledE) (simp add: k2)
  have p3: "picoreader t3 = None"
    using clearpicoport_fulfilled [OF p2, of "Some [0x04]" r2] 3 by simp
  show ?thesis
    using reads_nothingD [OF F, of t3 r2] p3 unfolding eq k3 by (simp add: no_reading_def)
qed

lemma loadTempPy_body_rejected:
  assumes "picoreader s \<noteq> Some Passthrough"
  shows "picoreader (snd (loadTempPy_body s)) \<noteq> Some Passthrough"
  using keeps_portD [OF keeps_port_loadTempPy_body, of s] assms by (simp add: port_kept_def)


lemma events_since_append:
  "trace t = trace s @ evs \<Longrightarrow> events_since s t = evs"
  by (simp add: events_since_def)

lemma cancelled_first:
  assumes "picoreader s \<noteq> None" "port_kept (cancel_picoreader s) t"
  shows "take 2 (events_since s t) = [ReaderCancel, ReaderRelease]"
proof -
  from assms(2) obtain later where "trace t = trace (cancel_picoreader s) @ later"
    by (auto simp: port_kept_def)
  then show ?thesis
    using assms(1) by (simp add: events_since_def trace_cancel_picoreader)
qed

lemma take_events_later:
  assumes "take n (events_since s t) = evs" "length evs = n" "trace t' = trace t @ later"
  shows "take n (events_since s t') = evs"
proof -
  have "length (take n (drop (length (trace s)) (trace t))) = n"
    using assms(1,2) by (simp add: events_since_def)
  then have "n \<le> length (trace t) - length (trace s)"
    by simp
  then show ?thesis
    using assms(1,3) by (simp add: events_since_def)
qed

lemma keeps_port_writeFile_tail:
  "keeps_port (run_all [stmt (start_reader Scanning), writeFile_body f c,
      stmt cancel_picoreader])"
proof (rule keeps_port_run_all)
  fix a
  assume "a \<in> set [stmt (start_reader Scanning), writeFile_body f c, stmt cancel_picoreader]"
  then consider "a = stmt (start_reader Scanning)" | "a = writeFile_body f c"
    | "a = stmt cancel_picoreader" by auto
  then show "keeps_port a"
  proof cases
    case 1
    then show ?thesis
      by (simp add: keeps_port_def port_kept_def trace_start_reader picoreader_start)
  next
    case 2
    then show ?thesis by simp
  next
    case 3
    then show ?thesis
      by (simp add: keeps_port_def port_kept_def trace_cancel_picoreader)
  qed
qed

lemma writeFile_cancels_first:
  assumes "picoreader s \<noteq> None"
  shows "take 2 (events_since s (snd (writeFile f c s))) = [ReaderCancel, ReaderRelease]"
proof -
  let ?s1 = "cancel_picoreader s"
  let ?body = "run_all [stmt (start_reader Scanning), writeFile_body f c, stmt cancel_picoreader]"
  obtain r t where b: "?body ?s1 = (r, t)" by (cases "?body ?s1")
  have kept: "port_kept ?s1 t"
    using keeps_portD [OF keeps_port_writeFile_tail, of ?s1 f c] b by simp
  have pre: "take 2 (events_since s t) = [ReaderCancel, ReaderRelease]"
    by (rule cancelled_first [OF assms kept])
  have "writeFile f c s =
     (case ?body ?s1 of
        (Fulfilled _, t) \<Rightarrow> (Fulfilled (), start_reader Passthrough t)
      | (Rejected e, t) \<Rightarrow> (Rejected e, t)
      | (Pending, t) \<Rightarrow> (Pending, t))"
    by (simp add: writeFile_def stmt_def split: prod.splits outcome.splits)
  then have "snd (writeFile f c s) = t \<or> snd (writeFile f c s) = start_reader Passthrough t"
    using b by (auto split: outcome.splits)
  moreover have "take 2 (events_since s (start_reader Passthrough t)) = [ReaderCancel, ReaderRelease]"
    by (rule take_events_later [OF pre _ trace_start_reader]) simp
  ultimately show ?thesis using pre by auto
qed

lemma loadTempPy_cancels_first:
  assumes "picoreader s \<noteq> None"
  shows "take 2 (events_since s (snd (loadTempPy s))) = [ReaderCancel, ReaderRelease]"
proof -
  let ?s1 = "cancel_picoreader s"
  obtain r t where b: "loadTempPy_body ?s1 = (r, t)" by (cases "loadTempPy_body ?s1")
  have kept: "port_kept ?s1 t"
    using keeps_portD [OF keeps_port_loadTempPy_body, of ?s1] b by simp
  have pre: "take 2 (events_since s t) = [ReaderCancel, ReaderRelease]"
    by (rule cancelled_first [OF assms kept])
  have "snd (loadTempPy s) = t \<or> snd (loadTempPy s) = start_reader Passthrough t"
    using b by (auto simp: loadTempPy_unfold split: outcome.splits)
  moreover have "take 2 (events_since s (start_reader Passthrough t)) = [ReaderCancel, ReaderRelease]"
    by (rule take_events_later [OF pre _ trace_start_reader]) simp
  ultimately show ?thesis using pre by auto
qed

lemma runCode_no_cancel:
  "picoreader (snd (runCode c s)) = picoreader s
   \<and> ReaderCancel \<notin> set (events_since s (snd (runCode c s)))"
proof -
  have "no_reading s (snd (runCode c s))"
    by (rule reads_nothingD) simp
  then obtain evs where "picoreader (snd (runCode c s)) = picoreader s"
    "trace (snd (runCode c s)) = trace s @ evs" "\<forall>e \<in> set evs. \<not> reader_event e"
    by (auto simp: no_reading_def)
  then show ?thesis by (auto simp: events_since_def)
qed

lemma writeFile_resumes:
  assumes "fst (writeFile f c s) = Fulfilled ()"
  shows "(picoreader (snd (writeFile f c s)) = Some Passthrough \<longleftrightarrow> picoport s \<and> readable s)
    \<and> (picoport s \<and> readable s \<longrightarrow> last (trace (snd (writeFile f c s))) = GetReader Passthrough)
    \<and> picoport (snd (writeFile f c s)) = picoport s
    \<and> readable (snd (writeFile f c s)) = readable s"
proof -
  let ?s2 = "start_reader Scanning (cancel_picoreader s)"
  obtain r t where b: "writeFile_body f c ?s2 = (r, t)" by (cases "writeFile_body f c ?s2")
  with assms have t: "snd (writeFile f c s) = start_reader Passthrough (cancel_picoreader t)"
    by (auto simp: writeFile_unfold split: outcome.splits)
  have "port_kept ?s2 t"
    using keeps_portD [OF keeps_port_writeFile_body, of ?s2 f c] b by simp
  then have "picoport t = picoport s" "readable t = readable s"
    by (simp_all add: port_kept_def)
  then show ?thesis
    unfolding t by (simp add: picoreader_start trace_start_reader)
qed

lemma writeFile_not_resumed:
  assumes "fst (writeFile f c s) = Rejected e"
  shows "picoreader (snd (writeFile f c s)) \<noteq> Some Passthrough
    \<and> GetReader Passthrough \<notin> set (events_since s (snd (writeFile f c s)))"
proof -
  let ?s2 = "start_reader Scanning (cancel_picoreader s)"
  obtain r t where b: "writeFile_body f c ?s2 = (r, t)" by (cases "writeFile_body f c ?s2")
  with assms have t: "snd (writeFile f c s) = t"
    by (auto simp: writeFile_unfold split: outcome.splits)
  have "picoreader ?s2 \<noteq> Some Passthrough"
    by (simp add: picoreader_start)
  moreover have "port_kept ?s2 t"
    using keeps_portD [OF keeps_port_writeFile_body, of ?s2 f c] b by simp
  ultimately obtain evs where p: "picoreader t \<noteq> Some Passthrough"
    and tr: "trace t = trace ?s2 @ evs" and evs: "GetReader Passthrough \<notin> set evs"
    by (auto simp: port_kept_def)
  have "GetReader Passthrough \<notin> set (events_since s t)"
    unfolding events_since_def tr using evs
    by (simp add: trace_start_reader trace_cancel_picoreader)
  with p show ?thesis unfolding t by simp
qed

lemma loadTempPy_resumes:
  assumes "fst (loadTempPy s) = Fulfilled ()"
  shows "(picoreader (snd (loadTempPy s)) = Some Passthrough \<longleftrightarrow> picoport s \<and> readable s)
    \<and> (picoport s \<and> readable s \<longrightarrow> last (trace (snd (loadTempPy s))) = GetReader Passthrough)
    \<and> picoport (snd (loadTempPy s)) = picoport s
    \<and> readable (snd (loadTempPy s)) = readable s"
proof -
  let ?s1 = "cancel_picoreader s"
  obtain r t where b: "loadTempPy_body ?s1 = (r, t)" by (cases "loadTempPy_body ?s1")
  with assms have t: "snd (loadTempPy s) = start_reader Passthrough t" and r: "r = Fulfilled ()"
    by (auto simp: loadTempPy_unfold split: outcome.splits)
  have "port_kept ?s1 t"
    using keeps_portD [OF keeps_port_loadTempPy_body, of ?s1] b by simp
  then have flags: "picoport t = picoport s" "readable t = readable s"
    by (simp_all add: port_kept_def)
  have "picoreader t = None"
    using loadTempPy_body_fulfilled [of ?s1] b r by simp
  with flags show ?thesis
    unfolding t by (simp add: picoreader_start trace_start_reader)
qed

lemma loadTempPy_not_resumed:
  assumes "fst (loadTempPy s) = Rejected e"
  shows "picoreader (snd (loadTempPy s)) \<noteq> Some Passthrough
    \<and> GetReader Passthrough \<notin> set (events_since s (snd (loadTempPy s)))"
proof -
  let ?s1 = "cancel_picoreader s"
  obtain r t where b: "loadTempPy_body ?s1 = (r, t)" by (cases "loadTempPy_body ?s1")
  with assms have t: "snd (loadTempPy s) = t"
    by (auto simp: loadTempPy_unfold split: outcome.splits)
  have "port_kept ?s1 t"
    using keeps_portD [OF keeps_port_loadTempPy_body, of ?s1] b by simp
  then obtain evs where p: "picoreader t \<noteq> Some Passthrough"
    and tr: "trace t = trace ?s1 @ evs" and evs: "GetReader Passthrough \<notin> set evs"
    by (auto simp: port_kept_def)
  have "GetReader Passthrough \<notin> set (events_since s t)"
    unfolding events_since_def tr using evs
    by (simp add: trace_cancel_picoreader)
  with p show ?thesis unfolding t by simp
qed

subsection \<open>Scanning\<close>

lemma decode_append:
  "decode d (a @ b) =
     (let (t, d1) = decode d a; (u, d2) = decode d1 b in (t @ u, d2))"
  by (induction a arbitrary: d) (auto simp: Let_def split: prod.splits)

lemma concat_decode_chunks:
  "concat (decode_chunks d chunks) = fst (decode d (concat chunks))"
  by (induction chunks arbitrary: d) (auto simp: decode_append Let_def split: prod.splits)

lemma str_includes_sublist: "str_includes s m \<longleftrightarrow> sublist m s"
  by (induction s) (auto simp: sublist_Cons_right)

lemma split_first_prefix: "prefix (split_first s m) s"
  by (induction s) auto

lemma split_first_decomp:
  "str_includes s m \<Longrightarrow> \<exists>z. s = split_first s m @ m @ z"
proof (induction s)
  case Nil
  then show ?case by simp
next
  case (Cons a s)
  show ?case
  proof (cases "prefix m (a # s)")
    case True
    then show ?thesis by (auto simp: prefix_def)
  next
    case False
    with Cons show ?thesis by auto
  qed
qed

lemma split_first_none: "\<not> str_includes s m \<Longrightarrow> split_first s m = s"
  by (induction s) auto

lemma split_first_length_append:
  "length (split_first (a @ b) m) \<le> length a + length (split_first b m)"
  by (induction a) auto

lemma str_includes_appendI1: "str_includes a m \<Longrightarrow> str_includes (a @ b) m"
  unfolding str_includes_sublist sublist_def by (metis append.assoc)

lemma str_includes_appendI2: "str_includes b m \<Longrightarrow> str_includes (a @ b) m"
  unfolding str_includes_sublist sublist_def by (metis append.assoc)

lemma split_first_append:
  "str_includes a m \<Longrightarrow> m \<noteq> [] \<Longrightarrow> split_first (a @ b) m = split_first a m"
proof (induction a)
  case Nil
  then show ?case by simp
next
  case (Cons x a)
  show ?case
  proof (cases "prefix m (x # a)")
    case True
    then have "prefix m ((x # a) @ b)" by (metis prefix_prefix)
    with True show ?thesis by simp
  next
    case False
    with Cons.prems have inc: "str_includes a m" by simp
    have "\<not> prefix m ((x # a) @ b)"
    proof
      assume p: "prefix m ((x # a) @ b)"
      from inc obtain z where "a = split_first a m @ m @ z"
        using split_first_decomp by blast
      then have "length m \<le> length a" by (metis length_append le_add1 le_add2 le_trans)
      then have "length m \<le> length (x # a)" by simp
      with p have "prefix m (x # a)"
        by (meson prefixI prefix_length_prefix)
      with False show False by simp
    qed
    with False Cons.IH [OF inc Cons.prems(2)] show ?thesis by simp
  qed
qed

lemma split_first_length_less:
  "str_includes s m \<Longrightarrow> m \<noteq> [] \<Longrightarrow> length (split_first s m) < length s"
proof -
  assume "str_includes s m" "m \<noteq> []"
  then obtain z where "s = split_first s m @ m @ z" using split_first_decomp by blast
  then have "length s = length (split_first s m) + length m + length z"
    by (metis length_append add.assoc)
  with \<open>m \<noteq> []\<close> show ?thesis by simp
qed

lemma split_first_at: "m \<noteq> [] \<Longrightarrow> length (split_first (x @ m @ y) m) \<le> length x"
proof -
  assume "m \<noteq> []"
  then have "split_first (m @ y) m = []" by (cases m) auto
  with split_first_length_append [of x "m @ y" m] show ?thesis by simp
qed

lemma readFromPort_chunks:
  assumes "decode_chunks d chunks = before @ c # after"
    and "\<forall>b \<in> set before. \<not> hit t b" and "hit t c"
  shows "readFromPort t d (map Chunk chunks @ rest) =
    (before @ [c], Returned, map Chunk (drop (Suc (length before)) chunks) @ rest)"
  using assms
proof (induction before arbitrary: chunks d)
  case Nil
  then obtain v vs where chunks: "chunks = v # vs" by (cases chunks) auto
  with Nil show ?case by (auto simp: Let_def split: prod.splits)
next
  case (Cons b before)
  then obtain v vs where chunks: "chunks = v # vs" by (cases chunks) auto
  obtain t1 d' where dec: "decode d v = (t1, d')" by (cases "decode d v")
  with Cons.prems(1) chunks have t1: "t1 = b" and rest: "decode_chunks d' vs = before @ c # after"
    by simp_all
  have "readFromPort t d' (map Chunk vs @ rest) =
    (before @ [c], Returned, map Chunk (drop (Suc (length before)) vs) @ rest)"
    using Cons.prems(2,3) by (intro Cons.IH [OF rest]) simp_all
  then show ?case
    using Cons.prems(2) by (simp add: chunks dec t1)
qed

lemma collect_chunks:
  assumes "\<forall>b \<in> set before. \<not> hit (Some m) b" and "hit (Some m) c"
  shows "collect (Some m) acc (before @ [c]) = acc @ concat before @ split_first c m"
  using assms by (induction before arbitrary: acc) simp_all

lemma clearpicoport_scan:
  assumes "picoport s" "readable s" "picoreader s = None"
    and "incoming s = map Chunk chunks @ rest"
    and "decode_chunks new_TextDecoder chunks = before @ c # after"
    and "\<forall>b \<in> set before. \<not> str_includes b m" and "str_includes c m" and "m \<noteq> []"
  shows "clearpicoport (Some m) s =
    (Fulfilled (concat before @ split_first c m),
     emit [GetReader Scanning, ReaderRelease]
       (s\<lparr>incoming := map Chunk (drop (Suc (length before)) chunks) @ rest\<rparr>))"
proof -
  have h: "\<forall>b \<in> set before. \<not> hit (Some m) b" "hit (Some m) c"
    using assms(6-8) by (simp_all add: hit_def)
  show ?thesis
    using assms(1-4)
    by (simp add: clearpicoport_def read_loop_def readFromPort_chunks [OF assms(5) h]
        collect_chunks [OF h] emit_def)
qed

lemma unsplit_marker:
  assumes "m \<noteq> []" and "split_first (concat before @ (x @ m @ y) @ z) m = concat before @ x"
  shows "\<forall>b \<in> set before. \<not> str_includes b m" and "split_first (x @ m @ y) m = x"
proof -
  let ?c = "x @ m @ y"
  have c: "str_includes ?c m"
    by (simp add: str_includes_sublist)
  show "\<forall>b \<in> set before. \<not> str_includes b m"
  proof
    fix b
    assume "b \<in> set before"
    then obtain b1 b2 where before: "before = b1 @ b # b2"
      by (meson split_list)
    show "\<not> str_includes b m"
    proof
      assume inc: "str_includes b m"
      have "length (split_first (concat b1 @ (b @ concat b2 @ ?c @ z)) m)
              \<le> length (concat b1) + length (split_first (b @ concat b2 @ ?c @ z) m)"
        by (rule split_first_length_append)
      also have "split_first (b @ concat b2 @ ?c @ z) m = split_first b m"
        by (rule split_first_append [OF inc assms(1)])
      also have "length (concat b1) + length (split_first b m) < length (concat b1) + length b"
        using split_first_length_less [OF inc assms(1)] by simp
      finally have "length (split_first (concat before @ ?c @ z) m) < length (concat before)"
        by (simp add: before)
      with assms(2) show False by simp
    qed
  qed
  have "length (split_first (concat before @ (?c @ z)) m)
          \<le> length (concat before) + length (split_first (?c @ z) m)"
    by (rule split_first_length_append)
  also have "split_first (?c @ z) m = split_first ?c m"
    by (rule split_first_append [OF c assms(1)])
  finally have "length x \<le> length (split_first ?c m)"
    using assms(2) by simp
  moreover have "length (split_first ?c m) \<le> length x"
    by (rule split_first_at [OF assms(1)])
  ultimately have "length (split_first ?c m) = length x" by simp
  moreover have "prefix (split_first ?c m) ?c" by (rule split_first_prefix)
  ultimately show "split_first ?c m = x"
    by (metis append_eq_append_conv prefixE)
qed

lemma clearpicoport_unsplit:
  assumes "picoport s" "readable s" "picoreader s = None"
    and "incoming s = map Chunk chunks @ rest" and "m \<noteq> []"
    and "decode_chunks new_TextDecoder chunks = before @ (x @ m @ y) # after"
    and "split_first (fst (decode new_TextDecoder (concat chunks))) m = concat before @ x"
  shows "fst (clearpicoport (Some m) s)
           = Fulfilled (split_first (fst (decode new_TextDecoder (concat chunks))) m)"
proof -
  have T: "fst (decode new_TextDecoder (concat chunks))
             = concat before @ (x @ m @ y) @ concat after"
    using concat_decode_chunks [of new_TextDecoder chunks] assms(6) by simp
  have u: "\<forall>b \<in> set before. \<not> str_includes b m" "split_first (x @ m @ y) m = x"
    using unsplit_marker [OF assms(5), of before x y "concat after"] assms(7) T by simp_all
  have "str_includes (x @ m @ y) m"
    by (simp add: str_includes_sublist)
  from clearpicoport_scan [OF assms(1-4) assms(6) u(1) this assms(5)]
  show ?thesis by (simp add: u(2) assms(7))
qed

lemma split_first_unit: "split_first s [u] = takeWhile (\<lambda>c. c \<noteq> u) s"
  by (induction s) auto

lemma str_includes_unit: "str_includes s [u] \<longleftrightarrow> u \<in> set s"
  by (induction s) auto

lemma clearpicoport_unit_marker_state:
  assumes "picoport s" "readable s" "picoreader s = None"
    and "incoming s = map Chunk chunks @ rest"
    and "u \<in> set (fst (decode new_TextDecoder (concat chunks)))"
  shows "\<exists>n. clearpicoport (Some [u]) s =
    (Fulfilled (takeWhile (\<lambda>c. c \<noteq> u) (fst (decode new_TextDecoder (concat chunks)))),
     emit [GetReader Scanning, ReaderRelease] (s\<lparr>incoming := map Chunk (drop n chunks) @ rest\<rparr>))"
proof -
  let ?ds = "decode_chunks new_TextDecoder chunks"
  have T: "fst (decode new_TextDecoder (concat chunks)) = concat ?ds"
    by (simp add: concat_decode_chunks)
  from assms(5) have "\<exists>c \<in> set ?ds. u \<in> set c"
    unfolding T by auto
  then obtain before c after where ds: "?ds = before @ c # after"
    and c: "u \<in> set c" and before: "\<forall>b \<in> set before. u \<notin> set b"
    by (auto dest!: split_list_first_prop)
  have 1: "takeWhile (\<lambda>c. c \<noteq> u) (concat before @ c @ concat after)
          = concat before @ takeWhile (\<lambda>c. c \<noteq> u) (c @ concat after)"
    using before by (intro takeWhile_append2) auto
  have 2: "takeWhile (\<lambda>c. c \<noteq> u) (c @ concat after) = takeWhile (\<lambda>c. c \<noteq> u) c"
    using c by (intro takeWhile_append1 [where x = u]) auto
  have "takeWhile (\<lambda>c. c \<noteq> u) (concat before @ c @ concat after)
          = concat before @ takeWhile (\<lambda>c. c \<noteq> u) c"
    by (simp only: 1 2)
  then have tw: "takeWhile (\<lambda>c. c \<noteq> u) (fst (decode new_TextDecoder (concat chunks)))
          = concat before @ takeWhile (\<lambda>c. c \<noteq> u) c"
    unfolding T ds by simp
  have "clearpicoport (Some [u]) s =
    (Fulfilled (concat before @ split_first c [u]),
     emit [GetReader Scanning, ReaderRelease]
       (s\<lparr>incoming := map Chunk (drop (Suc (length before)) chunks) @ rest\<rparr>))"
    using before c
    by (intro clearpicoport_scan [OF assms(1-4) ds]) (simp_all add: str_includes_unit)
  then show ?thesis
    unfolding tw split_first_unit by blast
qed

lemma clearpicoport_unit_marker:
  assumes "picoport s" "readable s" "picoreader s = None"
    and "incoming s = map Chunk chunks @ rest"
    and "u \<in> set (fst (decode new_TextDecoder (concat chunks)))"
  shows "fst (clearpicoport (Some [u]) s)
           = Fulfilled (takeWhile (\<lambda>c. c \<noteq> u) (fst (decode new_TextDecoder (concat chunks))))"
  using clearpicoport_unit_marker_state [OF assms] by auto

lemma decode_OK: "decode new_TextDecoder (bytes_of ''OK'') = (js ''OK'', new_TextDecoder\<lparr>bom_seen := True\<rparr>)"
  by (simp add: js_def bytes_of_def new_TextDecoder_def decode_byte_def utf8_handler_def
      lead_byte_def utf16_units_def)

lemma bind_Fulfilled: "m s = (Fulfilled a, t) \<Longrightarrow> bind m f s = f a t"
  by (simp add: bind_def)

lemma scan_OK_chunk:
  assumes "picoport s" "readable s" "picoreader s = None"
    and "incoming s = Chunk (bytes_of ''OK'') # map Chunk chunks @ rest"
  shows "clearpicoport (Some (js ''OK'')) s =
    (Fulfilled [],
     emit [GetReader Scanning, ReaderRelease] (s\<lparr>incoming := map Chunk chunks @ rest\<rparr>))"
proof -
  have i: "incoming s = map Chunk (bytes_of ''OK'' # chunks) @ rest"
    using assms(4) by simp
  have d: "decode_chunks new_TextDecoder (bytes_of ''OK'' # chunks)
             = [] @ js ''OK'' # decode_chunks (new_TextDecoder\<lparr>bom_seen := True\<rparr>) chunks"
    by (simp add: decode_OK)
  have m: "str_includes (js ''OK'') (js ''OK'')" "js ''OK'' \<noteq> []"
    "split_first (js ''OK'') (js ''OK'') = []"
    by (simp_all add: js_def)
  show ?thesis
    using clearpicoport_scan [OF assms(1-3) i d _ m(1,2)] by (simp add: m(3))
qed

lemma scan_answer:
  assumes "picoport s" "readable s" "picoreader s = None"
    and "incoming s = map Chunk chunks @ rest"
    and "concat chunks = bytes_of ''1+1'' @ [0x0D, 0x0A, 0x32, 0x0D, 0x0A, 0x04]"
  shows "\<exists>n. clearpicoport (Some [0x04]) s =
    (Fulfilled (js ''1+1'' @ [0x0D, 0x0A, 0x32, 0x0D, 0x0A]),
     emit [GetReader Scanning, ReaderRelease] (s\<lparr>incoming := map Chunk (drop n chunks) @ rest\<rparr>))"
proof -
  have t: "fst (decode new_TextDecoder (concat chunks))
             = js ''1+1'' @ [0x0D, 0x0A, 0x32, 0x0D, 0x0A, 0x04]"
    unfolding assms(5)
    by (simp add: js_def bytes_of_def new_TextDecoder_def decode_byte_def utf8_handler_def
        lead_byte_def utf16_units_def)
  have tw: "takeWhile (\<lambda>c. c \<noteq> 0x04) (fst (decode new_TextDecoder (concat chunks)))
      = js ''1+1'' @ [0x0D, 0x0A, 0x32, 0x0D, 0x0A]"
    by (simp add: t js_def)
  have "0x04 \<in> set (fst (decode new_TextDecoder (concat chunks)))"
    by (simp add: t)
  from clearpicoport_unit_marker_state [OF assms(1-4) this]
  show ?thesis unfolding tw .
qed

text \<open>
  On bytes below 0x80 the decoder is the identity: the text of such a stream has one
  code unit for each byte, so that a position in the text is a position in the bytes.
\<close>

lemma unat_ucast_byte32: "unat (ucast (b :: byte) :: 32 word) = unat b"
proof -
  have "unat b < 2 ^ 8" using unsigned_less [of b, where 'a = nat] by simp
  then have "unat b < 2 ^ 32" by simp
  then show ?thesis
    by (simp add: unsigned_ucast_eq take_bit_nat_eq_self)
qed

lemma ascii_below_plane: "b \<le> 0x7F \<Longrightarrow> (ucast (b :: byte) :: 32 word) < 0x10000"
  by (simp add: word_less_nat_alt word_le_nat_alt unat_ucast_byte32)

lemma ascii_not_bom: "b \<le> 0x7F \<Longrightarrow> (ucast (b :: byte) :: 32 word) \<noteq> 0xFEFF"
proof
  assume "b \<le> 0x7F" "(ucast b :: 32 word) = 0xFEFF"
  then have "unat b \<le> 0x7F" "unat (ucast b :: 32 word) = 0xFEFF"
    by (simp_all add: word_le_nat_alt)
  then show False by (simp add: unat_ucast_byte32)
qed

lemma ucast_byte_twice: "(ucast (ucast (b :: byte) :: 32 word) :: 16 word) = ucast b"
  by (rule ucast_up_ucast) (simp add: is_up)

lemma decode_byte_ascii:
  assumes "bytes_needed d = 0" "b \<le> 0x7F"
  shows "decode_byte d b = ([ucast b], d\<lparr>bom_seen := True\<rparr>)"
  using assms ascii_below_plane [of b] ascii_not_bom [of b]
  by (cases "bom_seen d")
     (simp_all add: decode_byte_def utf8_handler_def lead_byte_def utf16_units_def ucast_byte_twice)

lemma decode_ascii:
  assumes "bytes_needed d = 0" "\<forall>b \<in> set bs. b \<le> 0x7F"
  shows "fst (decode d bs) = map ucast bs"
  using assms
proof (induction bs arbitrary: d)
  case Nil
  then show ?case by simp
next
  case (Cons b bs)
  have "bytes_needed (d\<lparr>bom_seen := True\<rparr>) = 0" using Cons.prems by simp
  then have "fst (decode (d\<lparr>bom_seen := True\<rparr>) bs) = map ucast bs"
    using Cons.prems by (intro Cons.IH) simp_all
  then show ?case
    using Cons.prems by (cases "decode (d\<lparr>bom_seen := True\<rparr>) bs") (simp add: decode_byte_ascii)
qed

lemma stream_text_ascii:
  "\<forall>b \<in> set (concat chunks). b \<le> 0x7F \<Longrightarrow> stream_text chunks = map ucast (concat chunks)"
  unfolding stream_text_def by (rule decode_ascii) (simp_all add: new_TextDecoder_def)

subsection \<open>Reads that fail\<close>

lemma scan_failed:
  assumes "picoport s" "readable s" "picoreader s = None" "incoming s = Failed # rest"
  shows "clearpicoport m s =
    (Fulfilled [], emit [GetReader Scanning, TermError, ReaderRelease] (s\<lparr>incoming := rest\<rparr>))"
  using assms by (simp add: clearpicoport_def read_loop_def emit_def)

lemma loadTempPy_writes:
  assumes "picoport s" "writable s" "writer s \<noteq> Held" "wfaults s = []"
  shows \<open>loadTempPy_body s =
    bind (clearpicoport (Some (js ''OK''))) (\<lambda>_.
    bind (clearpicoport (Some [0x04])) (\<lambda>result.
      run_all [stmt (sendCommand_start [0x02]), stmt (emit [SetEditor result])]))
      (emit ([GetWriter] @ map Write
               [[0x01], js ''import os'' @ [0x0D], js ''with open("temp.py") as f:'' @ [0x0D],
                js ''  print(f.read())'' @ [0x0D], [0x04]] @ [WriterRelease])
         (s\<lparr>writer := Released\<rparr>))\<close>
proof -
  let ?ws = \<open>[[0x01], js ''import os'' @ [0x0D], js ''with open("temp.py") as f:'' @ [0x0D],
             js ''  print(f.read())'' @ [0x0D], [0x04]]\<close>
  let ?t0 = "emit [GetWriter] (s\<lparr>writer := Held\<rparr>)"
  let ?t1 = "emit ([GetWriter] @ map Write ?ws @ [WriterRelease]) (s\<lparr>writer := Released\<rparr>)"
  have prep: "prepareWritablePort s = (Fulfilled True, ?t0)"
    using assms by (simp add: prepareWritablePort_def)
  have ws: "run_all (map pico_write ?ws) ?t0 = (Fulfilled (), emit (map Write ?ws) ?t0)"
    using assms by (intro run_all_writes_ok) simp_all
  let ?W = \<open>run_all
                 [pico_write [0x01],
                  pico_write (js ''import os'' @ [0x0D]),
                  pico_write (js ''with open("temp.py") as f:'' @ [0x0D]),
                  pico_write (js ''  print(f.read())'' @ [0x0D]),
                  pico_write [0x04],
                  stmt releaseLock]\<close>
  from ws have W: "?W ?t0 = (Fulfilled (), ?t1)"
    using run_all_append [of "map pico_write ?ws" "[stmt releaseLock]" ?t0]
    by (simp add: stmt_def releaseLock_def emit_def)
  show ?thesis
    unfolding loadTempPy_body_def
    by (simp only: bind_Fulfilled [of prepareWritablePort s, OF prep] if_True
        bind_Fulfilled [of ?W ?t0, OF W])
qed

lemma loadTempPy_body_not_rejected:
  assumes "picoreader s = None" "writer s \<noteq> Held" "wfaults s = []"
  shows "fst (loadTempPy_body s) \<noteq> Rejected e"
proof (cases "picoport s \<and> writable s")
  case False
  then show ?thesis
    by (auto simp: loadTempPy_body_def bind_def prepareWritablePort_def stmt_def)
next
  case True
  let ?t1 = \<open>emit ([GetWriter] @ map Write
               [[0x01], js ''import os'' @ [0x0D], js ''with open("temp.py") as f:'' @ [0x0D],
                js ''  print(f.read())'' @ [0x0D], [0x04]] @ [WriterRelease])
         (s\<lparr>writer := Released\<rparr>)\<close>
  let ?F = "\<lambda>result. run_all [stmt (sendCommand_start [0x02]), stmt (emit [SetEditor result])]"
  have eq: "loadTempPy_body s =
      bind (clearpicoport (Some (js ''OK''))) (\<lambda>_. bind (clearpicoport (Some [0x04])) ?F) ?t1"
    using True assms by (intro loadTempPy_writes) simp_all
  have p1: "picoreader ?t1 = None"
    using assms by simp
  obtain r1 t2 where 1: "clearpicoport (Some (js ''OK'')) ?t1 = (r1, t2)"
    by (cases "clearpicoport (Some (js ''OK'')) ?t1")
  have n1: "r1 \<noteq> Rejected e"
    using clearpicoport_not_rejected [OF p1, of "Some (js ''OK'')" e] 1 by simp
  show ?thesis
  proof (cases r1)
    case (Fulfilled x)
    have p2: "picoreader t2 = None"
      using clearpicoport_fulfilled [OF p1, of "Some (js ''OK'')" x] 1 Fulfilled by simp
    obtain r2 t3 where 2: "clearpicoport (Some [0x04]) t2 = (r2, t3)"
      by (cases "clearpicoport (Some [0x04]) t2")
    have n2: "r2 \<noteq> Rejected e"
      using clearpicoport_not_rejected [OF p2, of "Some [0x04]" e] 2 by simp
    show ?thesis
      unfolding eq using 1 2 Fulfilled n2
      by (cases r2) (simp_all add: bind_def stmt_def)
  next
    case (Rejected e')
    then show ?thesis unfolding eq using 1 n1 by (simp add: bind_def)
  next
    case Pending
    then show ?thesis unfolding eq using 1 by (simp add: bind_def)
  qed
qed

lemma loadTempPy_not_rejected:
  assumes "writer s \<noteq> Held" "wfaults s = []"
  shows "fst (loadTempPy s) \<noteq> Rejected e"
proof -
  have "fst (loadTempPy_body (cancel_picoreader s)) \<noteq> Rejected e"
    using assms by (intro loadTempPy_body_not_rejected) simp_all
  then show ?thesis
    by (auto simp: loadTempPy_unfold split: prod.splits outcome.splits)
qed

lemma loadTempPy_failed_reads:
  assumes "picoport s" "readable s" "writable s" "writer s \<noteq> Held" "wfaults s = []"
    and "incoming s = Failed # Failed # rest"
  shows "fst (loadTempPy s) = Fulfilled ()"
proof -
  let ?s1 = "cancel_picoreader s"
  let ?t1 = \<open>emit ([GetWriter] @ map Write
               [[0x01], js ''import os'' @ [0x0D], js ''with open("temp.py") as f:'' @ [0x0D],
                js ''  print(f.read())'' @ [0x0D], [0x04]] @ [WriterRelease])
         (?s1\<lparr>writer := Released\<rparr>)\<close>
  let ?F = "\<lambda>result. run_all [stmt (sendCommand_start [0x02]), stmt (emit [SetEditor result])]"
  have eq: "loadTempPy_body ?s1 =
      bind (clearpicoport (Some (js ''OK''))) (\<lambda>_. bind (clearpicoport (Some [0x04])) ?F) ?t1"
    using assms by (intro loadTempPy_writes) simp_all
  let ?t2 = "emit [GetReader Scanning, TermError, ReaderRelease] (?t1\<lparr>incoming := Failed # rest\<rparr>)"
  have 1: "clearpicoport (Some (js ''OK'')) ?t1 = (Fulfilled [], ?t2)"
    using assms by (intro scan_failed) simp_all
  let ?t3 = "emit [GetReader Scanning, TermError, ReaderRelease] (?t2\<lparr>incoming := rest\<rparr>)"
  have 2: "clearpicoport (Some [0x04]) ?t2 = (Fulfilled [], ?t3)"
    using assms by (intro scan_failed) simp_all
  have "fst (loadTempPy_body ?s1) = Fulfilled ()"
    unfolding eq
    by (simp only: bind_Fulfilled [of "clearpicoport (Some (js ''OK''))" ?t1, OF 1]
        bind_Fulfilled [of "clearpicoport (Some [0x04])" ?t2, OF 2])
       (simp add: stmt_def)
  then show ?thesis
    by (auto simp: loadTempPy_unfold split: prod.splits outcome.splits)
qed

subsection \<open>The discipline of the reader\<close>

lemma one_reader_append:
  "one_reader h (xs @ ys) \<longleftrightarrow> one_reader h xs \<and> one_reader (reader_held h xs) ys"
  by (induction h xs rule: one_reader.induct) auto

lemma reader_held_append: "reader_held h (xs @ ys) = reader_held (reader_held h xs) ys"
  by (induction h xs rule: reader_held.induct) auto

lemma no_reader_events:
  assumes "\<forall>e \<in> set evs. \<not> reader_event e"
  shows "one_reader h evs" and "reader_held h evs = h"
  using assms by (induction h evs rule: one_reader.induct) auto

lemma lease_keptI:
  assumes "lease_kept s" "trace t = trace s @ evs"
    and "one_reader (picoreader s \<noteq> None) evs"
    and "reader_held (picoreader s \<noteq> None) evs = (picoreader t \<noteq> None)"
  shows "lease_kept t"
  using assms by (simp add: lease_kept_def one_reader_append reader_held_append)

lemma no_reading_lease:
  assumes "no_reading s t" "lease_kept s"
  shows "lease_kept t"
proof -
  from assms(1) obtain evs where "picoreader t = picoreader s" "trace t = trace s @ evs"
    "\<forall>e \<in> set evs. \<not> reader_event e"
    by (auto simp: no_reading_def)
  then show ?thesis
    by (intro lease_keptI [OF assms(2), where evs = evs]) (simp_all add: no_reader_events)
qed

lemma reads_nothing_keeps_lease: "reads_nothing a \<Longrightarrow> keeps_lease a"
  by (auto simp: reads_nothing_def keeps_lease_def intro: no_reading_lease)

lemma keeps_lease_run_all: "(\<And>a. a \<in> set as \<Longrightarrow> keeps_lease a) \<Longrightarrow> keeps_lease (run_all as)"
  unfolding keeps_lease_def
  by (intro allI run_all_rel [where R = "\<lambda>s t. lease_kept s \<longrightarrow> lease_kept t"]) auto

lemma keeps_lease_bind:
  "keeps_lease m \<Longrightarrow> (\<And>a. keeps_lease (f a)) \<Longrightarrow> keeps_lease (bind m f)"
  unfolding keeps_lease_def
  by (intro allI bind_rel [where R = "\<lambda>s t. lease_kept s \<longrightarrow> lease_kept t"]) auto

lemma lease_cancel:
  assumes "lease_kept s"
  shows "lease_kept (cancel_picoreader s)"
  by (rule lease_keptI [OF assms, where evs = "if picoreader s = None then []
                else [ReaderCancel, ReaderRelease]
                       @ (if write_settles s \<and> sending s \<and> writer s = Held
                          then [WriterRelease] else [])"])
     (auto simp: trace_cancel_picoreader)

lemma lease_start:
  assumes "lease_kept s"
  shows "lease_kept (start_reader r s)"
  by (rule lease_keptI [OF assms, where evs = "if picoport s \<and> readable s \<and> picoreader s = None
                then [GetReader r] else []"])
     (auto simp: trace_start_reader picoreader_start)

lemma lease_read_loop:
  assumes "lease_kept s" "picoreader s \<noteq> None"
  shows "lease_kept (snd (read_loop m s))"
proof -
  obtain chunks e rs where r: "readFromPort m new_TextDecoder (incoming s) = (chunks, e, rs)"
    by (cases "readFromPort m new_TextDecoder (incoming s)")
  show ?thesis
  proof (cases e)
    case Returned
    show ?thesis
      by (rule lease_keptI [OF assms(1), where evs = "[ReaderRelease]"])
         (use assms(2) r Returned in \<open>simp_all add: read_loop_def\<close>)
  next
    case Threw
    show ?thesis
      by (rule lease_keptI [OF assms(1), where evs = "[TermError, ReaderRelease]"])
         (use assms(2) r Threw in \<open>simp_all add: read_loop_def\<close>)
  next
    case Awaiting
    show ?thesis
      by (rule lease_keptI [OF assms(1), where evs = "[]"])
         (use assms(2) r Awaiting in \<open>simp_all add: read_loop_def\<close>)
  qed
qed

lemma lease_drain: "lease_kept s \<Longrightarrow> lease_kept (drain_reads s)"
  by (simp add: drain_reads_def lease_read_loop)

lemma keeps_lease_clearpicoport: "keeps_lease (clearpicoport m)"
  unfolding keeps_lease_def
proof (intro allI impI)
  fix s
  assume s: "lease_kept s"
  let ?s1 = "emit [GetReader Scanning] (s\<lparr>picoreader := Some Scanning\<rparr>)"
  show "lease_kept (snd (clearpicoport m s))"
  proof (cases "picoport s \<and> readable s \<and> picoreader s = None")
    case True
    have "lease_kept ?s1"
      by (rule lease_keptI [OF s, where evs = "[GetReader Scanning]"]) (use True in simp_all)
    then have "lease_kept (snd (read_loop m ?s1))"
      by (rule lease_read_loop) simp
    with True show ?thesis by (simp add: clearpicoport_def)
  next
    case False
    with s show ?thesis by (auto simp: clearpicoport_def)
  qed
qed

lemma keeps_lease_writeFile: "keeps_lease (writeFile f c)"
proof -
  let ?L = \<open>[awaiting drain_reads (pico_write [0x01]),
             pico_write (js ''with open("'' @ f @ js ''", "w") as f:'' @ [0x0D])]
            @ line_writes (split_lines c)
            @ [pico_write [0x04], stmt releaseLock, stmt (sendCommand_start [0x02])]\<close>
  have L: "keeps_lease a" if "a \<in> set ?L" for a
  proof (cases "a = awaiting drain_reads (pico_write [0x01])")
    case True
    have "lease_kept (snd (pico_write [0x01] s))" if "lease_kept s" for s
      using reads_nothing_keeps_lease [OF reads_nothing_write, of "[0x01]"] that
      by (simp add: keeps_lease_def)
    then show ?thesis
      by (simp add: True keeps_lease_def lease_drain)
  next
    case False
    with that have "reads_nothing a"
      by (auto simp: line_writes_texts)
    then show ?thesis by (rule reads_nothing_keeps_lease)
  qed
  have R: "keeps_lease (run_all ?L)"
    by (rule keeps_lease_run_all) (rule L)
  have I: "keeps_lease (stmt id)"
    by (intro reads_nothing_keeps_lease) simp
  have P: "keeps_lease prepareWritablePort"
    by (intro reads_nothing_keeps_lease) simp
  have B: "keeps_lease (writeFile_body f c)"
    unfolding writeFile_body_def
  proof (rule keeps_lease_bind [OF P])
    fix ok
    show "keeps_lease (if ok then run_all ?L else stmt id)"
      using R I by (cases ok) (simp_all only: if_True if_False)
  qed
  have C: "keeps_lease (stmt cancel_picoreader)"
    by (simp add: keeps_lease_def lease_cancel)
  have S: "keeps_lease (stmt (start_reader r))" for r
    by (simp add: keeps_lease_def lease_start)
  show ?thesis
    unfolding writeFile_def
    by (rule keeps_lease_run_all) (auto simp: B C S)
qed

lemma keeps_lease_loadTempPy: "keeps_lease loadTempPy"
proof -
  let ?W = \<open>run_all
                 [pico_write [0x01],
                  pico_write (js ''import os'' @ [0x0D]),
                  pico_write (js ''with open("temp.py") as f:'' @ [0x0D]),
                  pico_write (js ''  print(f.read())'' @ [0x0D]),
                  pico_write [0x04],
                  stmt releaseLock]\<close>
  let ?F = "\<lambda>result. run_all [stmt (sendCommand_start [0x02]), stmt (emit [SetEditor result])]"
  let ?K = "bind ?W (\<lambda>_.
         bind (clearpicoport (Some (js ''OK''))) (\<lambda>_.
         bind (clearpicoport (Some [0x04])) ?F))"
  have W: "keeps_lease ?W"
    by (intro reads_nothing_keeps_lease reads_nothing_run_all) auto
  have F: "keeps_lease (?F r)" for r
    by (intro reads_nothing_keeps_lease reads_nothing_run_all) auto
  have K: "keeps_lease ?K"
    by (intro keeps_lease_bind W F keeps_lease_clearpicoport)
  have I: "keeps_lease (stmt id)"
    by (intro reads_nothing_keeps_lease) simp
  have P: "keeps_lease prepareWritablePort"
    by (intro reads_nothing_keeps_lease) simp
  have B: "keeps_lease loadTempPy_body"
    unfolding loadTempPy_body_def
  proof (rule keeps_lease_bind [OF P])
    fix ok
    show "keeps_lease (if ok then ?K else stmt id)"
      using K I by (cases ok) (simp_all only: if_True if_False)
  qed
  have C: "keeps_lease (stmt cancel_picoreader)"
    by (simp add: keeps_lease_def lease_cancel)
  have S: "keeps_lease (stmt (start_reader r))" for r
    by (simp add: keeps_lease_def lease_start)
  show ?thesis
    unfolding loadTempPy_def
    by (rule keeps_lease_run_all) (auto simp: B C S)
qed

lemma lease_flags [simp]:
  "lease_kept (s\<lparr>picoport := p\<rparr>) = lease_kept s"
  "lease_kept (s\<lparr>readable := p\<rparr>) = lease_kept s"
  "lease_kept (s\<lparr>writable := p\<rparr>) = lease_kept s"
  by (simp_all add: lease_kept_def)

lemma lease_other_event:
  "(\<And>r. e \<noteq> GetReader r) \<Longrightarrow> e \<noteq> ReaderRelease \<Longrightarrow> lease_kept (emit [e] s) = lease_kept s"
  by (cases e) (auto simp: lease_kept_def one_reader_append reader_held_append)

lemma lease_markDisconnected: "lease_kept s \<Longrightarrow> lease_kept (markDisconnected s)"
  by (simp add: markDisconnected_def lease_other_event)

lemma lease_disconnect: "lease_kept s \<Longrightarrow> lease_kept (disconnectFromPort closes s)"
  by (simp add: disconnectFromPort_def close_port_def Let_def lease_markDisconnected
      lease_cancel lease_other_event)

lemma lease_opening: "lease_kept s \<Longrightarrow> lease_kept (openpicoport_opening opens s)"
proof -
  assume s: "lease_kept s"
  have "lease_kept (emit [PortOpen, TermLine (js ''<CONNECTED>'')] (s\<lparr>readable := True, writable := True\<rparr>))"
    by (rule lease_keptI [where s = s and evs = "[PortOpen, TermLine (js ''<CONNECTED>'')]"])
       (use s in auto)
  with s show ?thesis
    by (simp add: openpicoport_opening_def lease_markDisconnected lease_other_event
        del: emit_update)
qed

lemma lease_connect_click: "lease_kept s \<Longrightarrow> lease_kept (connect_click sel opens closes s)"
  by (cases sel)
     (simp_all add: connect_click_def lease_disconnect lease_opening lease_start)

lemma lease_perform: "lease_kept s \<Longrightarrow> lease_kept (perform a s)"
proof (cases a)
  case (Connect sel opens closes)
  assume "lease_kept s"
  then show ?thesis by (simp add: Connect lease_connect_click)
next
  case (Save f c)
  assume "lease_kept s"
  then show ?thesis using keeps_lease_writeFile [of f c] by (simp add: Save keeps_lease_def)
next
  case Load
  assume "lease_kept s"
  then show ?thesis using keeps_lease_loadTempPy by (simp add: Load keeps_lease_def)
next
  case (Run c)
  assume "lease_kept s"
  then show ?thesis
    using reads_nothing_keeps_lease [OF reads_nothing_runCode, of c]
    by (simp add: Run keeps_lease_def)
next
  case Stop
  assume "lease_kept s"
  then show ?thesis
    using reads_nothing_keeps_lease [OF reads_nothing_sendCommand_start, of "[0x03]"]
    by (simp add: Stop keeps_lease_def)
next
  case Settled
  assume "lease_kept s"
  then show ?thesis
    using reads_nothing_keeps_lease [OF reads_nothing_sendCommand_finish]
    by (simp add: Settled keeps_lease_def)
qed

lemma lease_run: "lease_kept s \<Longrightarrow> lease_kept (run ops s)"
  by (induction ops arbitrary: s) (simp_all add: lease_perform)

lemma one_reader_count:
  "one_reader h evs \<Longrightarrow> readers_active (if h then 1 else 0) (take n evs) \<le> 1"
proof (induction evs arbitrary: h n)
  case Nil
  then show ?case by simp
next
  case (Cons e es)
  show ?case
  proof (cases n)
    case 0
    then show ?thesis by simp
  next
    case (Suc k)
    show ?thesis
    proof (cases "reader_event e \<and> e \<noteq> ReaderCancel \<and> e \<noteq> TermError")
      case True
      then consider r where "e = GetReader r" | "e = ReaderRelease"
        by (cases e) auto
      then show ?thesis
      proof cases
        case 1
        with Cons.prems have "\<not> h" "one_reader True es" by simp_all
        with Cons.IH [of True k] show ?thesis by (simp add: Suc 1)
      next
        case 2
        with Cons.prems have "h" "one_reader False es" by simp_all
        with Cons.IH [of False k] show ?thesis by (simp add: Suc 2)
      qed
    next
      case False
      then have "one_reader h (e # es) = one_reader h es"
        "readers_active (if h then 1 else 0) (e # take k es)
           = readers_active (if h then 1 else 0) (take k es)"
        by (cases e; simp)+
      with Cons.prems Cons.IH [of h k] show ?thesis by (simp add: Suc)
    qed
  qed
qed

section \<open>Writing with no port\<close>

text \<open>
  C9 (as amended).  A caller-facing write operation invoked while there is no writable
  port is skipped: \<^verbatim>\<open>sendCommand\<close>, \<^verbatim>\<open>runCode\<close> and \<^verbatim>\<open>writeFile\<close> fulfil without
  writing anything and without an error.  The error \<^verbatim>\<open>Writer is not available\<close> is
  raised by \<^verbatim>\<open>Pico.write\<close> alone, when it is called with no writer, as it would be
  right after such a skipped operation.
\<close>

theorem write_without_port_skipped:
  assumes "\<not> (picoport s \<and> writable s)"
  shows "sendCommand command s = (Fulfilled (), s\<lparr>writer := NoWriter\<rparr>)
    \<and> runCode code s = (Fulfilled (), s\<lparr>writer := NoWriter\<rparr>)
    \<and> fst (writeFile filename content s) = Fulfilled ()
    \<and> filter is_write (trace (snd (writeFile filename content s))) = filter is_write (trace s)
    \<and> fst (pico_write str (snd (sendCommand command s))) = Rejected WriterNotAvailable"
  using assms
  by (simp add: sendCommand_no_port runCode_no_port writeFile_no_port pico_write_def)

theorem write_without_port_skipped_witness:
  "\<not> (picoport disconnected \<and> writable disconnected)
   \<and> sendCommand [0x03] disconnected = (Fulfilled (), disconnected)
   \<and> runCode (js ''1+1'') disconnected = (Fulfilled (), disconnected)
   \<and> fst (writeFile (js ''temp.py'') (js ''x'') disconnected) = Fulfilled ()
   \<and> filter is_write (trace (snd (writeFile (js ''temp.py'') (js ''x'') disconnected))) = []
   \<and> fst (pico_write [0x03] (snd (sendCommand [0x03] disconnected))) = Rejected WriterNotAvailable"
proof -
  have h: "\<not> (picoport disconnected \<and> writable disconnected)"
    by (simp add: disconnected_def)
  have e: "disconnected\<lparr>writer := NoWriter\<rparr> = disconnected" "trace disconnected = []"
    by (simp_all add: disconnected_def)
  show ?thesis
    using h write_without_port_skipped [OF h, where command = "[0x03]" and code = "js ''1+1''"
        and filename = "js ''temp.py''" and content = "js ''x''" and str = "[0x03]"]
    by (auto simp: e)
qed

text \<open>
  The claim as stated fails: \<^verbatim>\<open>sendCommand('\x03')\<close> with no port fulfils, and no
  \<^verbatim>\<open>Writer is not available\<close> reaches the caller.
\<close>

theorem write_without_port_counterexample:
  "fst (sendCommand [0x03] disconnected) \<noteq> Rejected WriterNotAvailable
   \<and> fst (sendCommand [0x03] disconnected) = Fulfilled ()
   \<and> fst (runCode (js ''1+1'') disconnected) = Fulfilled ()
   \<and> fst (writeFile (js ''temp.py'') (js ''x'') disconnected) = Fulfilled ()"
  by (simp add: disconnected_def sendCommand_def runCode_def writeFile_def writeFile_body_def
      bind_def prepareWritablePort_def stmt_def cancel_picoreader_def start_reader_def)

section \<open>Pushing two lines\<close>

text \<open>
  C6.  Pushing the content \<^verbatim>\<open>"a\nb\n"\<close> to \<^verbatim>\<open>"temp.py"\<close> over an open port whose
  writes succeed: after the raw-mode byte and the instruction that opens the file,
  \<^verbatim>\<open>writeFile\<close> writes two line instructions, \<^verbatim>\<open>f.write("a\n")\<close> and
  \<^verbatim>\<open>f.write("b\n")\<close>; the empty last line is skipped, and no write is issued for it.
  The flush byte 0x04 follows, then 0x02; these six are all the writes.  The last thing
  \<^verbatim>\<open>writeFile\<close> does is to start the terminal loop again.

  When nothing but data arrives during the push, the events are these, in this order:
  the reader that drains the port is acquired, the writer is acquired, the five writes
  of the push are made and the writer is released; 0x02 is sent, without \<^verbatim>\<open>await\<close>,
  under a second writer; the draining reader is cancelled and released; the terminal
  loop acquires its reader.  The second writer is released when its write has settled,
  which the program does not decide: its release is the one event that may come
  anywhere after the write of 0x02, or after \<^verbatim>\<open>writeFile\<close> has returned.
\<close>

theorem writeFile_two_lines:
  assumes "picoport s" "readable s" "writable s" "writer s \<noteq> Held" "wfaults s = []"
  shows \<open>fst (writeFile (js ''temp.py'') (js ''a'' @ [0x0A] @ js ''b'' @ [0x0A]) s) = Fulfilled ()
    \<and> filter is_write
        (events_since s (snd (writeFile (js ''temp.py'') (js ''a'' @ [0x0A] @ js ''b'' @ [0x0A]) s))) =
        [Write [0x01],
         Write (js ''with open("temp.py", "w") as f:'' @ [0x0D]),
         Write (js ''  f.write("a'' @ [0x5C] @ js ''n")'' @ [0x0D]),
         Write (js ''  f.write("b'' @ [0x5C] @ js ''n")'' @ [0x0D]),
         Write [0x04], Write [0x02]]
    \<and> last (trace (snd (writeFile (js ''temp.py'') (js ''a'' @ [0x0A] @ js ''b'' @ [0x0A]) s)))
        = GetReader Passthrough
    \<and> (only_chunks (incoming s) \<longrightarrow>
        (\<exists>tail.
          events_since s (snd (writeFile (js ''temp.py'') (js ''a'' @ [0x0A] @ js ''b'' @ [0x0A]) s)) =
            (if picoreader s = None then [] else [ReaderCancel, ReaderRelease])
            @ [GetReader Scanning, GetWriter,
               Write [0x01],
               Write (js ''with open("temp.py", "w") as f:'' @ [0x0D]),
               Write (js ''  f.write("a'' @ [0x5C] @ js ''n")'' @ [0x0D]),
               Write (js ''  f.write("b'' @ [0x5C] @ js ''n")'' @ [0x0D]),
               Write [0x04],
               WriterRelease, GetWriter, Write [0x02]]
            @ tail
          \<and> filter (\<lambda>e. e \<noteq> WriterRelease) tail
              = [ReaderCancel, ReaderRelease, GetReader Passthrough]))\<close>
proof -
  let ?t = "snd (writeFile (js ''temp.py'') (js ''a'' @ [0x0A] @ js ''b'' @ [0x0A]) s)"
  let ?tail = "[ReaderCancel, ReaderRelease] @ (if write_settles s then [WriterRelease] else [])
               @ [GetReader Passthrough]"
  have lines: "split_lines (js ''a'' @ [0x0A] @ js ''b'' @ [0x0A]) = [js ''a'', js ''b'', []]"
    by (simp add: js_def)
  have texts: \<open>tl (push_texts (js ''temp.py'') (js ''a'' @ [0x0A] @ js ''b'' @ [0x0A])) =
      [js ''with open("temp.py", "w") as f:'' @ [0x0D],
       js ''  f.write("a'' @ [0x5C] @ js ''n")'' @ [0x0D],
       js ''  f.write("b'' @ [0x5C] @ js ''n")'' @ [0x0D], [0x04]]\<close>
    unfolding push_texts_def lines
    by (simp add: js_def strip_eol_def JSON_stringify_def quote_unit_def)
  have f: "fst (writeFile (js ''temp.py'') (js ''a'' @ [0x0A] @ js ''b'' @ [0x0A]) s) = Fulfilled ()"
    using assms by (simp add: writeFile_fulfils)
  have l: "last (trace ?t) = GetReader Passthrough"
    using writeFile_resumes [OF f] assms by simp
  have w: \<open>filter is_write (events_since s ?t) =
        [Write [0x01],
         Write (js ''with open("temp.py", "w") as f:'' @ [0x0D]),
         Write (js ''  f.write("a'' @ [0x5C] @ js ''n")'' @ [0x0D]),
         Write (js ''  f.write("b'' @ [0x5C] @ js ''n")'' @ [0x0D]),
         Write [0x04], Write [0x02]]\<close>
    unfolding writeFile_events [OF assms(1,3,4,5)] texts by simp
  have e: \<open>events_since s ?t =
          (if picoreader s = None then [] else [ReaderCancel, ReaderRelease])
          @ [GetReader Scanning, GetWriter,
             Write [0x01],
             Write (js ''with open("temp.py", "w") as f:'' @ [0x0D]),
             Write (js ''  f.write("a'' @ [0x5C] @ js ''n")'' @ [0x0D]),
             Write (js ''  f.write("b'' @ [0x5C] @ js ''n")'' @ [0x0D]),
             Write [0x04],
             WriterRelease, GetWriter, Write [0x02]]
          @ ?tail
        \<and> filter (\<lambda>e. e \<noteq> WriterRelease) ?tail
              = [ReaderCancel, ReaderRelease, GetReader Passthrough]\<close>
    if "only_chunks (incoming s)"
    unfolding writeFile_events [OF assms(1,3,4,5)] texts
    using assms that by (simp add: drain_end_only_chunks)
  show ?thesis
    using f w l e by blast
qed

theorem writeFile_two_lines_witness:
  \<open>picoport (streaming\<lparr>incoming := [Chunk [0x3E]]\<rparr>)
   \<and> readable (streaming\<lparr>incoming := [Chunk [0x3E]]\<rparr>)
   \<and> writable (streaming\<lparr>incoming := [Chunk [0x3E]]\<rparr>)
   \<and> writer (streaming\<lparr>incoming := [Chunk [0x3E]]\<rparr>) \<noteq> Held
   \<and> wfaults (streaming\<lparr>incoming := [Chunk [0x3E]]\<rparr>) = []
   \<and> only_chunks (incoming (streaming\<lparr>incoming := [Chunk [0x3E]]\<rparr>))
   \<and> fst (writeFile (js ''temp.py'') (js ''a'' @ [0x0A] @ js ''b'' @ [0x0A])
        (streaming\<lparr>incoming := [Chunk [0x3E]]\<rparr>)) = Fulfilled ()
   \<and> filter is_write (trace (snd (writeFile (js ''temp.py'') (js ''a'' @ [0x0A] @ js ''b'' @ [0x0A])
        (streaming\<lparr>incoming := [Chunk [0x3E]]\<rparr>)))) =
        [Write [0x01],
         Write (js ''with open("temp.py", "w") as f:'' @ [0x0D]),
         Write (js ''  f.write("a'' @ [0x5C] @ js ''n")'' @ [0x0D]),
         Write (js ''  f.write("b'' @ [0x5C] @ js ''n")'' @ [0x0D]),
         Write [0x04], Write [0x02]]
   \<and> last (trace (snd (writeFile (js ''temp.py'') (js ''a'' @ [0x0A] @ js ''b'' @ [0x0A])
        (streaming\<lparr>incoming := [Chunk [0x3E]]\<rparr>)))) = GetReader Passthrough
   \<and> trace (snd (writeFile (js ''temp.py'') (js ''a'' @ [0x0A] @ js ''b'' @ [0x0A])
        (streaming\<lparr>incoming := [Chunk [0x3E]]\<rparr>))) =
        [ReaderCancel, ReaderRelease, GetReader Scanning, GetWriter,
           Write [0x01],
           Write (js ''with open("temp.py", "w") as f:'' @ [0x0D]),
           Write (js ''  f.write("a'' @ [0x5C] @ js ''n")'' @ [0x0D]),
           Write (js ''  f.write("b'' @ [0x5C] @ js ''n")'' @ [0x0D]),
           Write [0x04],
           WriterRelease, GetWriter, Write [0x02],
           ReaderCancel, ReaderRelease, GetReader Passthrough]\<close>
proof -
  let ?s = "streaming\<lparr>incoming := [Chunk [0x3E]]\<rparr>"
  have h: "picoport ?s" "readable ?s" "writable ?s" "writer ?s \<noteq> Held" "wfaults ?s = []"
    by (simp_all add: streaming_def)
  have p: "trace ?s = []" "only_chunks (incoming ?s)"
    by (simp_all add: streaming_def)
  have t: \<open>trace (snd (writeFile (js ''temp.py'') (js ''a'' @ [0x0A] @ js ''b'' @ [0x0A]) ?s)) =
        [ReaderCancel, ReaderRelease, GetReader Scanning, GetWriter,
           Write [0x01],
           Write (js ''with open("temp.py", "w") as f:'' @ [0x0D]),
           Write (js ''  f.write("a'' @ [0x5C] @ js ''n")'' @ [0x0D]),
           Write (js ''  f.write("b'' @ [0x5C] @ js ''n")'' @ [0x0D]),
           Write [0x04],
           WriterRelease, GetWriter, Write [0x02],
           ReaderCancel, ReaderRelease, GetReader Passthrough]\<close>
    by code_simp
  show ?thesis
    using h p t writeFile_two_lines [OF h]
    by (simp add: events_since_def)
qed

section \<open>Releasing the writer\<close>

text \<open>
  C7 (as amended).  \<^verbatim>\<open>sendCommand\<close> and \<^verbatim>\<open>runCode\<close> that fulfil have released the
  lock of the write end when they return.  There is no release on the failure path:
  when a write throws, \<^verbatim>\<open>releaseLock\<close> is not reached and the operation returns,
  rejected, with the writer still holding the lock.

  \<^verbatim>\<open>writeFile\<close> over a port that accepts every write releases the writer of its own
  writes after the flush byte, and then calls \<^verbatim>\<open>sendCommand('\x02')\<close> without
  \<^verbatim>\<open>await\<close>.  That call holds a second writer until its write has settled.  So
  \<^verbatim>\<open>writeFile\<close> fulfils with the lock still held, unless it had a reader to cancel and
  the write has settled while it awaited that cancel.  The reader to cancel is the one
  that drains the port: there is none when the port is not readable or when that loop
  has ended by itself, and then there is no \<^verbatim>\<open>await\<close> after the call and the lock is
  held at the return.  The lock is released once the suspended call has gone on.
\<close>

theorem writer_released_unless_write_throws:
  "(fst (sendCommand command s) = Fulfilled () \<longrightarrow> writer (snd (sendCommand command s)) \<noteq> Held)
   \<and> (fst (runCode code s) = Fulfilled () \<longrightarrow> writer (snd (runCode code s)) \<noteq> Held)
   \<and> (fst (sendCommand command s) = Rejected TransportError
        \<longrightarrow> writer (snd (sendCommand command s)) = Held)
   \<and> (fst (runCode code s) = Rejected TransportError \<longrightarrow> writer (snd (runCode code s)) = Held)
   \<and> (fst (writeFile filename content s) = Rejected TransportError
        \<longrightarrow> writer (snd (writeFile filename content s)) = Held)
   \<and> (picoport s \<and> writable s \<and> writer s \<noteq> Held \<and> wfaults s = [] \<longrightarrow>
        fst (writeFile filename content s) = Fulfilled ()
        \<and> filter writer_event (events_since s (snd (writeFile filename content s))) =
            [GetWriter] @ map Write (push_texts filename content)
            @ [WriterRelease, GetWriter, Write [0x02]]
            @ (if readable s \<and> only_chunks (incoming s) \<and> write_settles s
               then [WriterRelease] else [])
        \<and> writer (snd (writeFile filename content s)) =
            (if readable s \<and> only_chunks (incoming s) \<and> write_settles s then Released else Held)
        \<and> writer (sendCommand_finish (snd (writeFile filename content s))) = Released)"
  using sendCommand_fulfilled [of command s] runCode_fulfilled [of code s]
    sendCommand_rejected [of command s] runCode_rejected [of code s]
    writeFile_rejected [of filename content s]
    writeFile_fulfils [of s filename content] writeFile_writer [of s filename content]
    writeFile_finished [of s filename content]
    writeFile_writer_events [of s filename content]
  by auto

theorem writer_released_unless_write_throws_witness:
  \<open>fst (sendCommand [0x03] streaming) = Fulfilled ()
   \<and> writer (snd (sendCommand [0x03] streaming)) \<noteq> Held
   \<and> fst (runCode (js ''1+1'') streaming) = Fulfilled ()
   \<and> writer (snd (runCode (js ''1+1'') streaming)) \<noteq> Held
   \<and> fst (sendCommand [0x03] (streaming\<lparr>wfaults := [True]\<rparr>)) = Rejected TransportError
   \<and> writer (snd (sendCommand [0x03] (streaming\<lparr>wfaults := [True]\<rparr>))) = Held
   \<and> fst (runCode (js ''1+1'') (streaming\<lparr>wfaults := [False, True]\<rparr>)) = Rejected TransportError
   \<and> writer (snd (runCode (js ''1+1'') (streaming\<lparr>wfaults := [False, True]\<rparr>))) = Held
   \<and> fst (writeFile (js ''temp.py'') (js ''x'') (streaming\<lparr>wfaults := [False, False, True]\<rparr>))
       = Rejected TransportError
   \<and> writer (snd (writeFile (js ''temp.py'') (js ''x'') (streaming\<lparr>wfaults := [False, False, True]\<rparr>)))
       = Held
   \<and> picoport streaming \<and> writable streaming \<and> writer streaming \<noteq> Held
   \<and> wfaults streaming = []
   \<and> fst (writeFile (js ''temp.py'') (js ''x'') streaming) = Fulfilled ()
   \<and> filter writer_event
        (events_since streaming (snd (writeFile (js ''temp.py'') (js ''x'') streaming))) =
       [GetWriter, Write [0x01],
        Write (js ''with open("temp.py", "w") as f:'' @ [0x0D]),
        Write (js ''  f.write("x")''),
        Write [0x04], WriterRelease, GetWriter, Write [0x02]]
   \<and> writer (snd (writeFile (js ''temp.py'') (js ''x'') streaming)) = Held
   \<and> writer (sendCommand_finish (snd (writeFile (js ''temp.py'') (js ''x'') streaming))) = Released
   \<and> writer (snd (writeFile (js ''temp.py'') (js ''x'') (streaming\<lparr>write_settles := True\<rparr>)))
       = Released
   \<and> writer (snd (writeFile (js ''temp.py'') (js ''x'')
        (streaming\<lparr>readable := False, picoreader := None, write_settles := True\<rparr>))) = Held\<close>
proof -
  let ?q = "streaming\<lparr>write_settles := True\<rparr>"
  let ?n = "streaming\<lparr>readable := False, picoreader := None, write_settles := True\<rparr>"
  have h: "picoport streaming" "writable streaming" "writer streaming \<noteq> Held"
    "wfaults streaming = []"
    and q: "picoport ?q" "writable ?q" "writer ?q \<noteq> Held" "wfaults ?q = []"
    and n: "picoport ?n" "writable ?n" "writer ?n \<noteq> Held" "wfaults ?n = []"
    by (simp_all add: streaming_def)
  have i: "readable streaming" "only_chunks (incoming streaming)" "\<not> write_settles streaming"
    "readable ?q" "only_chunks (incoming ?q)" "write_settles ?q" "\<not> readable ?n"
    by (simp_all add: streaming_def)
  have 1: "fst (sendCommand [0x03] streaming) = Fulfilled ()"
    "fst (runCode (js ''1+1'') streaming) = Fulfilled ()"
    by (simp_all add: sendCommand_ok [OF h] runCode_ok [OF h])
  have 2: "fst (sendCommand [0x03] (streaming\<lparr>wfaults := [True]\<rparr>)) = Rejected TransportError"
    "fst (runCode (js ''1+1'') (streaming\<lparr>wfaults := [False, True]\<rparr>)) = Rejected TransportError"
    by (simp_all add: streaming_def sendCommand_def runCode_def bind_def prepareWritablePort_def
        pico_write_def emit_def)
  have 3: "fst (writeFile (js ''temp.py'') (js ''x'') (streaming\<lparr>wfaults := [False, False, True]\<rparr>))
       = Rejected TransportError"
    by (simp add: streaming_def writeFile_def writeFile_body_def stmt_def bind_def
        prepareWritablePort_def cancel_picoreader_def start_reader_def awaiting_def
        drain_reads_def read_loop_def pico_write_def emit_def js_def strip_eol_def)
  have p: \<open>push_texts (js ''temp.py'') (js ''x'') =
      [[0x01], js ''with open("temp.py", "w") as f:'' @ [0x0D], js ''  f.write("x")'', [0x04]]\<close>
    by (simp add: push_texts_def js_def strip_eol_def JSON_stringify_def quote_unit_def)
  show ?thesis
    using h i 1 2 3
      writer_released_unless_write_throws [of "[0x03]" streaming "js ''1+1''" "js ''temp.py''" "js ''x''"]
      writer_released_unless_write_throws [of "[0x03]" "streaming\<lparr>wfaults := [True]\<rparr>"]
      writer_released_unless_write_throws [of _ "streaming\<lparr>wfaults := [False, True]\<rparr>" "js ''1+1''"]
      writer_released_unless_write_throws [of _ "streaming\<lparr>wfaults := [False, False, True]\<rparr>" _ "js ''temp.py''" "js ''x''"]
      writer_released_unless_write_throws [of _ ?q _ "js ''temp.py''" "js ''x''"]
      writer_released_unless_write_throws [of _ ?n _ "js ''temp.py''" "js ''x''"]
    by (simp add: q n p)
qed

text \<open>
  The claim as stated fails: \<^verbatim>\<open>sendCommand('\x03')\<close> whose write is rejected by the
  port returns with the lock held; the writer was acquired and never released.
\<close>

theorem writer_held_after_failed_write_counterexample:
  "fst (sendCommand [0x03] (streaming\<lparr>wfaults := [True]\<rparr>)) = Rejected TransportError
   \<and> writer (snd (sendCommand [0x03] (streaming\<lparr>wfaults := [True]\<rparr>))) = Held
   \<and> events_since streaming (snd (sendCommand [0x03] (streaming\<lparr>wfaults := [True]\<rparr>)))
       = [GetWriter]"
  by (simp add: streaming_def sendCommand_def bind_def prepareWritablePort_def
      pico_write_def emit_def events_since_def)

section \<open>How long a writer is held\<close>

text \<open>
  C8 (as amended).  Over an open port that accepts every write, \<^verbatim>\<open>sendCommand\<close>
  holds the writer it acquires for one write and releases it.  \<^verbatim>\<open>runCode\<close> holds one
  writer across its four awaited writes, and \<^verbatim>\<open>writeFile\<close> holds one writer across
  all the writes of the push (the raw-mode byte, the instruction that opens the file,
  one write for each line it writes, and the flush byte), each releasing it after the
  last of them; \<^verbatim>\<open>writeFile\<close> then sends 0x02 under a second writer.
\<close>

theorem writer_held_across_writes:
  assumes "picoport s" "writable s" "writer s \<noteq> Held" "wfaults s = []"
  shows "events_since s (snd (sendCommand command s)) = [GetWriter, Write command, WriterRelease]
    \<and> lease_writes (events_since s (snd (sendCommand command s))) = [1]
    \<and> events_since s (snd (runCode code s)) =
        [GetWriter, Write [0x01], Write code, Write [0x04], Write [0x02], WriterRelease]
    \<and> lease_writes (events_since s (snd (runCode code s))) = [4]
    \<and> lease_writes (events_since s (snd (writeFile filename content s))) =
        [3 + length (line_texts (split_lines content)), 1]"
proof -
  have wf: "lease_writes (events_since s (snd (writeFile filename content s))) =
        [3 + length (line_texts (split_lines content)), 1]"
    unfolding writeFile_events [OF assms]
    by (simp add: lease_writes_skip push_texts_def)
  show ?thesis
    using assms wf by (simp add: sendCommand_ok runCode_ok events_since_def)
qed

theorem writer_held_across_writes_witness:
  "picoport streaming \<and> writable streaming \<and> writer streaming \<noteq> Held \<and> wfaults streaming = []
   \<and> lease_writes (events_since streaming (snd (sendCommand [0x03] streaming))) = [1]
   \<and> lease_writes (events_since streaming (snd (runCode (js ''1+1'') streaming))) = [4]
   \<and> lease_writes (events_since streaming
        (snd (writeFile (js ''temp.py'') (js ''a'' @ [0x0A] @ js ''b'' @ [0x0A]) streaming))) = [5, 1]"
proof -
  have h: "picoport streaming" "writable streaming" "writer streaming \<noteq> Held"
    "wfaults streaming = []"
    by (simp_all add: streaming_def)
  have l: "line_texts (split_lines (js ''a'' @ [0x0A] @ js ''b'' @ [0x0A])) =
    line_texts [js ''a'', js ''b'', []]"
    by (simp add: js_def)
  show ?thesis
    using h writer_held_across_writes [OF h, of "[0x03]" "js ''1+1''" "js ''temp.py''"
        "js ''a'' @ [0x0A] @ js ''b'' @ [0x0A]"]
    unfolding l by (simp add: strip_eol_def)
qed

text \<open>
  The claim as stated fails: \<^verbatim>\<open>runCode\<close> acquires the writer once and awaits four
  writes before it releases it.
\<close>

theorem writer_held_across_writes_counterexample:
  "events_since streaming (snd (runCode (js ''1+1'') streaming)) =
     [GetWriter, Write [0x01], Write (js ''1+1''), Write [0x04], Write [0x02], WriterRelease]
   \<and> lease_writes (events_since streaming (snd (runCode (js ''1+1'') streaming))) \<noteq> [1]"
  by (simp add: streaming_def runCode_def bind_def prepareWritablePort_def pico_write_def
      stmt_def releaseLock_def emit_def events_since_def)

section \<open>The instruction that opens the file\<close>

text \<open>
  C10.  Over an open port that accepts every write, \<^verbatim>\<open>writeFile(filename, content)\<close>
  writes, after the raw-mode byte 0x01, the text \<^verbatim>\<open>with open("\<close> followed by the file
  name as it is, followed by \<^verbatim>\<open>", "w") as f:\<close> and a carriage return.  Nothing in the
  file name is escaped; the lines alone go through \<^verbatim>\<open>JSON.stringify\<close>.  In the
  witness the file name holds a double quote and a backslash, both written unchanged,
  while the double quote of the content is escaped.
\<close>

theorem writeFile_open_instruction:
  assumes "picoport s" "writable s" "writer s \<noteq> Held" "wfaults s = []"
  shows \<open>filter is_write (events_since s (snd (writeFile filename content s))) =
     map Write
       ([0x01] # (js ''with open("'' @ filename @ js ''", "w") as f:'' @ [0x0D])
          # line_texts (split_lines content) @ [[0x04], [0x02]])\<close>
  unfolding writeFile_events [OF assms]
  by (simp add: push_texts_def)

theorem writeFile_open_instruction_witness:
  \<open>picoport streaming \<and> writable streaming \<and> writer streaming \<noteq> Held \<and> wfaults streaming = []
   \<and> filter is_write (events_since streaming
        (snd (writeFile (js ''a"b'' @ [0x5C] @ js ''.py'') (js ''"'') streaming))) =
     [Write [0x01],
      Write (js ''with open("a"b'' @ [0x5C] @ js ''.py", "w") as f:'' @ [0x0D]),
      Write (js ''  f.write("'' @ [0x5C] @ js ''"")''),
      Write [0x04], Write [0x02]]\<close>
proof -
  have h: "picoport streaming" "writable streaming" "writer streaming \<noteq> Held"
    "wfaults streaming = []"
    by (simp_all add: streaming_def)
  have l: \<open>line_texts (split_lines (js ''"'')) = [js ''  f.write("'' @ [0x5C] @ js ''"")'']\<close>
    by (simp add: js_def strip_eol_def JSON_stringify_def quote_unit_def)
  show ?thesis
    using h unfolding writeFile_open_instruction [OF h] l by (simp add: js_def)
qed

section \<open>A transaction and the terminal loop\<close>

text \<open>
  C3 (as amended).  \<^verbatim>\<open>writeFile\<close> and \<^verbatim>\<open>loadTempPy\<close> started while the terminal
  loop is reading cancel its reader first: the cancel and the release of the reader are
  the first two events of the transaction, before the writer is acquired and before
  anything is written.  \<^verbatim>\<open>runCode\<close> does not cancel: it writes its control sequence
  while the terminal loop keeps its reader.
\<close>

theorem passthrough_cancelled_first:
  assumes "picoreader s = Some Passthrough"
  shows "take 2 (events_since s (snd (writeFile filename content s)))
           = [ReaderCancel, ReaderRelease]
    \<and> take 2 (events_since s (snd (loadTempPy s))) = [ReaderCancel, ReaderRelease]
    \<and> picoreader (snd (runCode code s)) = Some Passthrough
    \<and> ReaderCancel \<notin> set (events_since s (snd (runCode code s)))"
  using assms writeFile_cancels_first [of s filename content] loadTempPy_cancels_first [of s]
    runCode_no_cancel [of code s]
  by simp

theorem passthrough_cancelled_first_witness:
  "picoreader streaming = Some Passthrough
   \<and> take 2 (events_since streaming (snd (writeFile (js ''temp.py'') (js ''x'') streaming)))
       = [ReaderCancel, ReaderRelease]
   \<and> take 2 (events_since streaming (snd (loadTempPy streaming))) = [ReaderCancel, ReaderRelease]
   \<and> picoreader (snd (runCode (js ''1+1'') streaming)) = Some Passthrough
   \<and> ReaderCancel \<notin> set (events_since streaming (snd (runCode (js ''1+1'') streaming)))"
proof -
  have h: "picoreader streaming = Some Passthrough"
    by (simp add: streaming_def)
  show ?thesis
    using h passthrough_cancelled_first [OF h, of "js ''temp.py''" "js ''x''" "js ''1+1''"]
    by simp
qed

text \<open>
  The claim as stated fails for \<^verbatim>\<open>runCode\<close>: started while the terminal loop is
  reading, it writes 0x01 and the rest with no cancel before or after.
\<close>

theorem runCode_does_not_cancel_counterexample:
  "picoreader streaming = Some Passthrough
   \<and> events_since streaming (snd (runCode (js ''1+1'') streaming)) =
       [GetWriter, Write [0x01], Write (js ''1+1''), Write [0x04], Write [0x02], WriterRelease]
   \<and> ReaderCancel \<notin> set (events_since streaming (snd (runCode (js ''1+1'') streaming)))
   \<and> picoreader (snd (runCode (js ''1+1'') streaming)) = Some Passthrough"
  by (simp add: streaming_def runCode_def bind_def prepareWritablePort_def pico_write_def
      stmt_def releaseLock_def emit_def events_since_def)




section \<open>Scanning for a marker\<close>

text \<open>
  C1 (as amended).  Take any bytes and any partition of them into chunks, all delivered
  to a scan \<^verbatim>\<open>clearpicoport(M)\<close> on an open port.  If the first occurrence of the
  marker \<open>M\<close> in the text decoded from the whole stream lies within the text of a single
  chunk (the chunk's text is \<open>x @ M @ y\<close> and the text before the occurrence is the text
  of the chunks before it followed by \<open>x\<close>), the scan returns exactly the decoded text
  before that occurrence: the marker and everything after it are excluded, and the
  result is the same for all such partitions.  Every partition is such when \<open>M\<close> is a
  single UTF-16 code unit that occurs in the text.  A multi-byte character split between
  two chunks is decoded across them, as in the witness.
\<close>

theorem scan_returns_text_before_marker:
  assumes "picoport s" "readable s" "picoreader s = None"
    and "incoming s = map Chunk chunks @ rest" and "m \<noteq> []"
  shows "(decode_chunks new_TextDecoder chunks = before @ (x @ m @ y) # after
          \<and> split_first (stream_text chunks) m = concat before @ x
        \<longrightarrow> fst (clearpicoport (Some m) s) = Fulfilled (split_first (stream_text chunks) m)
          \<and> prefix (split_first (stream_text chunks) m @ m) (stream_text chunks))
    \<and> (m = [u] \<and> u \<in> set (stream_text chunks)
        \<longrightarrow> fst (clearpicoport (Some m) s) = Fulfilled (split_first (stream_text chunks) m)
          \<and> prefix (split_first (stream_text chunks) m @ m) (stream_text chunks))"
proof (intro conjI impI; elim conjE)
  assume d: "decode_chunks new_TextDecoder chunks = before @ (x @ m @ y) # after"
    and f: "split_first (stream_text chunks) m = concat before @ x"
  have T: "stream_text chunks = concat before @ (x @ m @ y) @ concat after"
    using concat_decode_chunks [of new_TextDecoder chunks] d by (simp add: stream_text_def)
  show "prefix (split_first (stream_text chunks) m @ m) (stream_text chunks)"
    unfolding f by (simp add: T)
  show "fst (clearpicoport (Some m) s) = Fulfilled (split_first (stream_text chunks) m)"
    using clearpicoport_unsplit [OF assms d] f by (simp add: stream_text_def)
next
  assume m: "m = [u]" and u: "u \<in> set (stream_text chunks)"
  show "fst (clearpicoport (Some m) s) = Fulfilled (split_first (stream_text chunks) m)"
    using clearpicoport_unit_marker [OF assms(1-4), of u] u
    by (simp add: m stream_text_def split_first_unit)
  have "str_includes (stream_text chunks) m"
    using u by (simp add: m str_includes_unit)
  then show "prefix (split_first (stream_text chunks) m @ m) (stream_text chunks)"
    by (metis split_first_decomp append.assoc prefixI)
qed

theorem scan_returns_text_before_marker_witness:
  "picoport opened \<and> readable opened \<and> picoreader opened = None
   \<and> decode_chunks new_TextDecoder [[0x61, 0xE3], [0x81, 0x82, 0x4F, 0x4B, 0x62]]
       = [[0x61]] @ ([0x3042] @ js ''OK'' @ [0x62]) # []
   \<and> split_first (stream_text [[0x61, 0xE3], [0x81, 0x82, 0x4F, 0x4B, 0x62]]) (js ''OK'')
       = concat [[0x61]] @ [0x3042]
   \<and> fst (clearpicoport (Some (js ''OK''))
         (opened\<lparr>incoming := map Chunk [[0x61, 0xE3], [0x81, 0x82, 0x4F, 0x4B, 0x62]] @ []\<rparr>))
       = Fulfilled [0x61, 0x3042]
   \<and> 0x04 \<in> set (stream_text [[0x31, 0x0D], [0x0A, 0x04, 0x3E]])
   \<and> fst (clearpicoport (Some [0x04])
         (opened\<lparr>incoming := map Chunk [[0x31, 0x0D], [0x0A, 0x04, 0x3E]] @ []\<rparr>))
       = Fulfilled [0x31, 0x0D, 0x0A]"
proof -
  let ?cs = "[[0x61, 0xE3], [0x81, 0x82, 0x4F, 0x4B, 0x62]] :: byte list list"
  let ?ds = "[[0x31, 0x0D], [0x0A, 0x04, 0x3E]] :: byte list list"
  have o: "picoport (opened\<lparr>incoming := i\<rparr>)" "readable (opened\<lparr>incoming := i\<rparr>)"
    "picoreader (opened\<lparr>incoming := i\<rparr>) = None"
    "picoport opened" "readable opened" "picoreader opened = None" for i
    by (simp_all add: opened_def streaming_def)
  have d: "decode_chunks new_TextDecoder ?cs = [[0x61]] @ ([0x3042] @ js ''OK'' @ [0x62]) # []"
    by (simp add: js_def new_TextDecoder_def decode_byte_def utf8_handler_def lead_byte_def
        utf16_units_def reset_decoder_def)
  have t: "stream_text ?cs = [0x61, 0x3042] @ js ''OK'' @ [0x62]"
    by (simp add: stream_text_def js_def new_TextDecoder_def decode_byte_def utf8_handler_def
        lead_byte_def utf16_units_def reset_decoder_def)
  have f: "split_first (stream_text ?cs) (js ''OK'') = concat [[0x61]] @ [0x3042]"
    unfolding t by (simp add: js_def)
  have t2: "stream_text ?ds = [0x31, 0x0D, 0x0A, 0x04, 0x3E]"
    by (simp add: stream_text_def new_TextDecoder_def decode_byte_def utf8_handler_def
        lead_byte_def utf16_units_def reset_decoder_def)
  have m: "js ''OK'' \<noteq> []" "[0x04 :: 16 word] \<noteq> []"
    by (simp_all add: js_def)
  have i: "incoming (opened\<lparr>incoming := j\<rparr>) = j" for j
    by simp
  note w1 = scan_returns_text_before_marker [where s = "opened\<lparr>incoming := map Chunk ?cs @ []\<rparr>"
      and chunks = ?cs and rest = "[]" and m = "js ''OK''"
      and before = "[[0x61]]" and x = "[0x3042]" and y = "[0x62]" and after = "[]",
      OF o(1-3) i m(1)]
  note w2 = scan_returns_text_before_marker [where s = "opened\<lparr>incoming := map Chunk ?ds @ []\<rparr>"
      and chunks = ?ds and rest = "[]" and m = "[0x04]" and u = "0x04",
      OF o(1-3) i m(2)]
  show ?thesis
    using o(4-6) d f w1 w2
    by (simp add: t2)
qed

text \<open>
  The claim as stated fails: the marker is looked for in each chunk on its own.  The
  bytes of \<^verbatim>\<open>OK\<close> in one chunk end the scan with the empty text; the same bytes in
  two chunks do not end it: the scan returns \<^verbatim>\<open>OK\<close> when the stream closes after
  them, and never returns when nothing more arrives.
\<close>

theorem split_marker_not_found_counterexample:
  "concat [bytes_of ''O'', bytes_of ''K''] = concat [bytes_of ''OK'']
   \<and> stream_text [bytes_of ''OK''] = js ''OK''
   \<and> fst (clearpicoport (Some (js ''OK'')) (opened\<lparr>incoming := [Chunk (bytes_of ''OK''), Done]\<rparr>))
       = Fulfilled []
   \<and> fst (clearpicoport (Some (js ''OK''))
         (opened\<lparr>incoming := [Chunk (bytes_of ''O''), Chunk (bytes_of ''K''), Done]\<rparr>))
       = Fulfilled (js ''OK'')
   \<and> fst (clearpicoport (Some (js ''OK''))
         (opened\<lparr>incoming := [Chunk (bytes_of ''O''), Chunk (bytes_of ''K'')]\<rparr>))
       = Pending"
  by (simp add: opened_def streaming_def stream_text_def clearpicoport_def read_loop_def
      hit_def js_def bytes_of_def new_TextDecoder_def decode_byte_def utf8_handler_def
      lead_byte_def utf16_units_def emit_def)

section \<open>Loading: the acknowledgement and the output\<close>

text \<open>
  C5 (as amended).  In \<^verbatim>\<open>loadTempPy\<close>, if the device's acknowledgement \<^verbatim>\<open>OK\<close>
  arrives as a chunk of its own and the bytes of \<^verbatim>\<open>"1+1\r\n2\r\n\x04"\<close> arrive after
  it, in any partition into chunks, the scan for \<^verbatim>\<open>OK\<close> returns the empty string
  and the scan for 0x04 that follows returns exactly \<^verbatim>\<open>"1+1\r\n2\r\n"\<close>; when the
  port accepts the writes, \<^verbatim>\<open>loadTempPy\<close> completes and puts that text in the editor.
\<close>

theorem load_scans_after_OK_chunk:
  assumes "picoport s" "readable s" "picoreader s = None"
    and "incoming s = Chunk (bytes_of ''OK'') # map Chunk chunks @ rest"
    and "concat chunks = bytes_of ''1+1'' @ [0x0D, 0x0A, 0x32, 0x0D, 0x0A, 0x04]"
  shows "fst (clearpicoport (Some (js ''OK'')) s) = Fulfilled []
    \<and> fst (clearpicoport (Some [0x04]) (snd (clearpicoport (Some (js ''OK'')) s)))
        = Fulfilled (js ''1+1'' @ [0x0D, 0x0A, 0x32, 0x0D, 0x0A])
    \<and> (writable s \<and> writer s \<noteq> Held \<and> wfaults s = [] \<longrightarrow>
         fst (loadTempPy s) = Fulfilled ()
         \<and> editor_values (events_since s (snd (loadTempPy s)))
             = [js ''1+1'' @ [0x0D, 0x0A, 0x32, 0x0D, 0x0A]])"
proof (intro conjI impI)
  let ?s1 = "emit [GetReader Scanning, ReaderRelease] (s\<lparr>incoming := map Chunk chunks @ rest\<rparr>)"
  have 1: "clearpicoport (Some (js ''OK'')) s = (Fulfilled [], ?s1)"
    by (rule scan_OK_chunk [OF assms(1-4)])
  show "fst (clearpicoport (Some (js ''OK'')) s) = Fulfilled []"
    by (simp add: 1)
  have s1: "picoport ?s1" "readable ?s1" "picoreader ?s1 = None"
    "incoming ?s1 = map Chunk chunks @ rest"
    using assms(1-3) by simp_all
  show "fst (clearpicoport (Some [0x04]) (snd (clearpicoport (Some (js ''OK'')) s)))
        = Fulfilled (js ''1+1'' @ [0x0D, 0x0A, 0x32, 0x0D, 0x0A])"
    using scan_answer [OF s1 assms(5)] by (auto simp: 1)
next
  assume w: "writable s \<and> writer s \<noteq> Held \<and> wfaults s = []"
  let ?ws = \<open>[[0x01], js ''import os'' @ [0x0D], js ''with open("temp.py") as f:'' @ [0x0D],
             js ''  print(f.read())'' @ [0x0D], [0x04]]\<close>
  let ?r = "js ''1+1'' @ [0x0D, 0x0A, 0x32, 0x0D, 0x0A]"
  let ?t1 = "emit ([GetWriter] @ map Write ?ws @ [WriterRelease]) (s\<lparr>writer := Released\<rparr>)"
  let ?F = "\<lambda>result. run_all [stmt (sendCommand_start [0x02]), stmt (emit [SetEditor result])]"
  have c: "cancel_picoreader s = s"
    using assms(3) by simp
  have eq: "loadTempPy_body s =
      bind (clearpicoport (Some (js ''OK''))) (\<lambda>_. bind (clearpicoport (Some [0x04])) ?F) ?t1"
    using assms(1) w by (intro loadTempPy_writes) simp_all
  have t1: "picoport ?t1" "readable ?t1" "picoreader ?t1 = None"
    "incoming ?t1 = Chunk (bytes_of ''OK'') # map Chunk chunks @ rest"
    using assms(1-4) by simp_all
  let ?t2 = "emit [GetReader Scanning, ReaderRelease] (?t1\<lparr>incoming := map Chunk chunks @ rest\<rparr>)"
  have S1: "clearpicoport (Some (js ''OK'')) ?t1 = (Fulfilled [], ?t2)"
    by (rule scan_OK_chunk [OF t1])
  have t2: "picoport ?t2" "readable ?t2" "picoreader ?t2 = None"
    "incoming ?t2 = map Chunk chunks @ rest"
    using assms(1-3) by simp_all
  from scan_answer [OF t2 assms(5)] obtain n where
    S2: "clearpicoport (Some [0x04]) ?t2 =
      (Fulfilled ?r,
       emit [GetReader Scanning, ReaderRelease] (?t2\<lparr>incoming := map Chunk (drop n chunks) @ rest\<rparr>))"
    by blast
  let ?t3 = "emit [GetReader Scanning, ReaderRelease] (?t2\<lparr>incoming := map Chunk (drop n chunks) @ rest\<rparr>)"
  have C: "sendCommand_start [0x02] ?t3 =
      (emit [GetWriter, Write [0x02]] ?t3)\<lparr>writer := Held, sending := True\<rparr>"
    using assms(1) w by (intro sendCommand_start_ok) simp_all
  let ?t4 = "emit [SetEditor ?r] ((emit [GetWriter, Write [0x02]] ?t3)\<lparr>writer := Held, sending := True\<rparr>)"
  have "loadTempPy_body s = ?F ?r ?t3"
    unfolding eq
    by (simp only: bind_Fulfilled [of "clearpicoport (Some (js ''OK''))" ?t1, OF S1]
        bind_Fulfilled [of "clearpicoport (Some [0x04])" ?t2, OF S2])
  then have body: "loadTempPy_body s = (Fulfilled (), ?t4)"
    by (simp only: run_all.simps stmt_def C snd_conv prod.case outcome.case)
  have all: "loadTempPy s = (Fulfilled (), start_reader Passthrough ?t4)"
    by (simp add: loadTempPy_unfold c body del: emit_emit emit_update emit_fields)
  show "fst (loadTempPy s) = Fulfilled ()"
    by (simp add: all)
  show "editor_values (events_since s (snd (loadTempPy s))) = [?r]"
    using assms(1-3)
    by (simp add: all events_since_def trace_start_reader)
qed

theorem load_scans_after_OK_chunk_witness:
  "picoport opened \<and> readable opened \<and> picoreader opened = None
   \<and> concat [bytes_of ''1+1'' @ [0x0D, 0x0A], [0x32, 0x0D, 0x0A, 0x04]]
       = bytes_of ''1+1'' @ [0x0D, 0x0A, 0x32, 0x0D, 0x0A, 0x04]
   \<and> fst (clearpicoport (Some (js ''OK''))
        (opened\<lparr>incoming := Chunk (bytes_of ''OK'')
           # map Chunk [bytes_of ''1+1'' @ [0x0D, 0x0A], [0x32, 0x0D, 0x0A, 0x04]] @ []\<rparr>))
       = Fulfilled []
   \<and> fst (clearpicoport (Some [0x04]) (snd (clearpicoport (Some (js ''OK''))
        (opened\<lparr>incoming := Chunk (bytes_of ''OK'')
           # map Chunk [bytes_of ''1+1'' @ [0x0D, 0x0A], [0x32, 0x0D, 0x0A, 0x04]] @ []\<rparr>))))
       = Fulfilled (js ''1+1'' @ [0x0D, 0x0A, 0x32, 0x0D, 0x0A])
   \<and> writable opened \<and> writer opened \<noteq> Held \<and> wfaults opened = []
   \<and> fst (loadTempPy
        (opened\<lparr>incoming := Chunk (bytes_of ''OK'')
           # map Chunk [bytes_of ''1+1'' @ [0x0D, 0x0A], [0x32, 0x0D, 0x0A, 0x04]] @ []\<rparr>))
       = Fulfilled ()
   \<and> editor_values (trace (snd (loadTempPy
        (opened\<lparr>incoming := Chunk (bytes_of ''OK'')
           # map Chunk [bytes_of ''1+1'' @ [0x0D, 0x0A], [0x32, 0x0D, 0x0A, 0x04]] @ []\<rparr>))))
       = [js ''1+1'' @ [0x0D, 0x0A, 0x32, 0x0D, 0x0A]]"
proof -
  let ?cs = "[bytes_of ''1+1'' @ [0x0D, 0x0A], [0x32, 0x0D, 0x0A, 0x04]]"
  let ?s = "opened\<lparr>incoming := Chunk (bytes_of ''OK'') # map Chunk ?cs @ []\<rparr>"
  have o: "picoport ?s" "readable ?s" "picoreader ?s = None"
    "picoport opened" "readable opened" "picoreader opened = None"
    by (simp_all add: opened_def streaming_def)
  have w: "writable opened" "writer opened \<noteq> Held" "wfaults opened = []"
    "writable ?s" "writer ?s \<noteq> Held" "wfaults ?s = []" "trace ?s = []"
    by (simp_all add: opened_def streaming_def)
  have i: "incoming ?s = Chunk (bytes_of ''OK'') # map Chunk ?cs @ []"
    by simp
  have c: "concat ?cs = bytes_of ''1+1'' @ [0x0D, 0x0A, 0x32, 0x0D, 0x0A, 0x04]"
    by simp
  note t = load_scans_after_OK_chunk [where s = ?s and chunks = ?cs and rest = "[]", OF o(1-3) i c]
  show ?thesis
    using o(4-6) w c t by (simp add: events_since_def)
qed

text \<open>
  The claim as stated fails when the device's bytes arrive in one chunk: the scan for
  \<^verbatim>\<open>OK\<close> returns the empty string and drops the rest of the chunk it has read, so
  the scan for 0x04 finds nothing: it never returns when nothing more arrives, and
  returns the empty string when the stream closes.
\<close>

theorem load_single_chunk_counterexample:
  "fst (clearpicoport (Some (js ''OK''))
        (opened\<lparr>incoming := [Chunk (bytes_of ''OK1+1'' @ [0x0D, 0x0A, 0x32, 0x0D, 0x0A, 0x04])]\<rparr>))
     = Fulfilled []
   \<and> fst (clearpicoport (Some [0x04]) (snd (clearpicoport (Some (js ''OK''))
        (opened\<lparr>incoming := [Chunk (bytes_of ''OK1+1'' @ [0x0D, 0x0A, 0x32, 0x0D, 0x0A, 0x04])]\<rparr>))))
     = Pending
   \<and> fst (clearpicoport (Some [0x04]) (snd (clearpicoport (Some (js ''OK''))
        (opened\<lparr>incoming :=
           [Chunk (bytes_of ''OK1+1'' @ [0x0D, 0x0A, 0x32, 0x0D, 0x0A, 0x04]), Done]\<rparr>))))
     = Fulfilled []"
  by (simp add: opened_def streaming_def clearpicoport_def read_loop_def hit_def js_def
      bytes_of_def new_TextDecoder_def decode_byte_def utf8_handler_def lead_byte_def
      utf16_units_def emit_def)

section \<open>One reader at a time\<close>



end
